theory Spec2Isabelle
  imports Main "HOL-Library.Sublist"
begin

section \<open>Strings\<close>

text \<open>
  A JavaScript string is modelled by the bytes of its UTF-8 encoding, as the file holds it.
  Every character the program inspects (slash, dot, the two quotes, line feed, carriage
  return) is ASCII, and an ASCII byte never occurs inside a multi-byte sequence, so
  scanning the bytes finds the same positions as scanning the UTF-16 code units.
  The text of a file is taken to be valid UTF-8, so that reading and writing it keeps
  its bytes.
\<close>

definition slash :: char where
  "slash = CHR ''/''"

definition isQuote :: "char \<Rightarrow> bool" where
  "isQuote c \<longleftrightarrow> c = CHR 0x27 \<or> c = CHR 0x22"

definition startsWith :: "string \<Rightarrow> string \<Rightarrow> bool" where
  "startsWith s p \<longleftrightarrow> take (length p) s = p"

definition endsWith :: "string \<Rightarrow> string \<Rightarrow> bool" where
  "endsWith s p \<longleftrightarrow> length p \<le> length s \<and> drop (length s - length p) s = p"

text \<open>
  The dot of a regular expression without the \<open>s\<close> flag matches every code unit except
  the line terminators U+000A, U+000D, U+2028 and U+2029; the last two are the byte
  sequences E2 80 A8 and E2 80 A9.
\<close>

fun hasLineTerminator :: "string \<Rightarrow> bool" where
  "hasLineTerminator [] = False"
| "hasLineTerminator (c # cs) =
     (c = CHR 0x0A \<or> c = CHR 0x0D
      \<or> (c = CHR 0xE2 \<and> (take 2 cs = [CHR 0x80, CHR 0xA8] \<or> take 2 cs = [CHR 0x80, CHR 0xA9]))
      \<or> hasLineTerminator cs)"

text \<open>\<open>String.prototype.split('/')\<close>: never empty; \<open>''''\<close> gives one empty segment.\<close>

fun splitSlash :: "string \<Rightarrow> string list" where
  "splitSlash [] = [[]]"
| "splitSlash (c # cs) =
     (if c = slash then [] # splitSlash cs
      else (case splitSlash cs of [] \<Rightarrow> [[c]] | s # ss \<Rightarrow> (c # s) # ss))"

text \<open>\<open>Array.prototype.join('/')\<close>.\<close>

fun joinSlash :: "string list \<Rightarrow> string" where
  "joinSlash [] = []"
| "joinSlash [s] = s"
| "joinSlash (s # t # ss) = s @ slash # joinSlash (t # ss)"

section \<open>The path module (POSIX)\<close>

text \<open>
  \<open>normalizeString\<close> of Node's path module, segment by segment: empty segments and
  \<open>.\<close> are dropped; \<open>..\<close> removes the last kept segment unless there is none or it is
  itself \<open>..\<close>, in which case \<open>..\<close> is kept when the path may climb above its root.
\<close>

fun normalizeSegments :: "bool \<Rightarrow> string list \<Rightarrow> string list \<Rightarrow> string list" where
  "normalizeSegments allowAboveRoot res [] = res"
| "normalizeSegments allowAboveRoot res (s # ss) =
     (if s = [] \<or> s = ''.'' then normalizeSegments allowAboveRoot res ss
      else if s = ''..'' then
        (if res \<noteq> [] \<and> last res \<noteq> ''..''
         then normalizeSegments allowAboveRoot (butlast res) ss
         else if allowAboveRoot then normalizeSegments allowAboveRoot (res @ [''..'']) ss
         else normalizeSegments allowAboveRoot res ss)
      else normalizeSegments allowAboveRoot (res @ [s]) ss)"

definition normalizeString :: "string \<Rightarrow> bool \<Rightarrow> string" where
  "normalizeString path allowAboveRoot =
     joinSlash (normalizeSegments allowAboveRoot [] (splitSlash path))"

definition isAbsolute :: "string \<Rightarrow> bool" where
  "isAbsolute path \<longleftrightarrow> (case path of [] \<Rightarrow> False | c # _ \<Rightarrow> c = slash)"

definition normalizePath :: "string \<Rightarrow> string" where
  "normalizePath path =
     (if path = [] then ''.''
      else
        let trailingSeparator = (last path = slash);
            p = normalizeString path (\<not> isAbsolute path)
        in if p = [] then (if isAbsolute path then ''/'' else if trailingSeparator then ''./'' else ''.'')
           else (if isAbsolute path then ''/'' else []) @ p @ (if trailingSeparator then ''/'' else []))"

text \<open>\<open>path.join\<close>: the non-empty arguments joined by a slash, then normalised.\<close>

definition joinPath :: "string list \<Rightarrow> string" where
  "joinPath args =
     (case filter (\<lambda>a. a \<noteq> []) args of
        [] \<Rightarrow> ''.''
      | a # as \<Rightarrow> normalizePath (joinSlash (a # as)))"

text \<open>
  \<open>path.resolve\<close>: the arguments are taken from the right until an absolute one is found;
  the current working directory comes last. \<open>resolveLoop\<close> receives them in that order.
\<close>

fun resolveLoop :: "string list \<Rightarrow> string \<Rightarrow> string \<times> bool" where
  "resolveLoop [] resolvedPath = (resolvedPath, False)"
| "resolveLoop (path # ps) resolvedPath =
     (if path = [] then resolveLoop ps resolvedPath
      else if isAbsolute path then (path @ slash # resolvedPath, True)
      else resolveLoop ps (path @ slash # resolvedPath))"

definition resolve :: "string \<Rightarrow> string list \<Rightarrow> string" where
  "resolve cwd args =
     (case resolveLoop (rev args @ [cwd]) [] of
        (resolvedPath, resolvedAbsolute) \<Rightarrow>
          let p = normalizeString resolvedPath (\<not> resolvedAbsolute)
          in if resolvedAbsolute then slash # p
             else if p \<noteq> [] then p else ''.'')"

text \<open>
  \<open>path.relative\<close>: both paths are resolved; the segments they share at the front are
  dropped, every remaining segment of \<open>from\<close> becomes \<open>..\<close>, and the remaining segments
  of \<open>to\<close> follow.
\<close>

fun dropCommon :: "string list \<Rightarrow> string list \<Rightarrow> string list \<times> string list" where
  "dropCommon (a # as) (b # bs) = (if a = b then dropCommon as bs else (a # as, b # bs))"
| "dropCommon as bs = (as, bs)"

definition segmentsOf :: "string \<Rightarrow> string list" where
  "segmentsOf path = filter (\<lambda>s. s \<noteq> []) (splitSlash path)"

definition relative :: "string \<Rightarrow> string \<Rightarrow> string \<Rightarrow> string" where
  "relative cwd from to =
     (if from = to then []
      else
        let f = resolve cwd [from]; t = resolve cwd [to]
        in if f = t then []
           else (case dropCommon (segmentsOf f) (segmentsOf t) of
                   (fs, ts) \<Rightarrow> joinSlash (replicate (length fs) ''..'' @ ts)))"

text \<open>
  \<open>path.dirname\<close>: from the right and not looking at the first character, skip the
  trailing slashes, skip the last name, and cut at the slash before it.
\<close>

definition dirname :: "string \<Rightarrow> string" where
  "dirname path =
     (case path of
        [] \<Rightarrow> ''.''
      | c # cs \<Rightarrow>
          let r = dropWhile (\<lambda>x. x \<noteq> slash) (dropWhile (\<lambda>x. x = slash) (rev cs))
          in if r = [] then (if c = slash then ''/'' else ''.'')
             else if c = slash \<and> length r = 1 then ''//''
             else c # rev (tl r))"

section \<open>The alias stage\<close>

text \<open>
  The lazy group \<open>(.*?)\<close> followed by \<open>(['"])\<close>: the capture runs to the first quote, and
  the match fails when a line terminator comes before that quote or when no quote follows.
\<close>

definition lazyUntilQuote :: "string \<Rightarrow> (string \<times> char \<times> string) option" where
  "lazyUntilQuote s =
     (case dropWhile (\<lambda>c. \<not> isQuote c) s of
        [] \<Rightarrow> None
      | quote # rest \<Rightarrow>
          if hasLineTerminator (takeWhile (\<lambda>c. \<not> isQuote c) s) then None
          else Some (takeWhile (\<lambda>c. \<not> isQuote c) s, quote, rest))"

text \<open>
  The pattern built for one alias is \<open>(?<!/)\<close>, the alias with every regular-expression
  metacharacter escaped (so it stands for itself), a slash, \<open>(.*?)\<close> and \<open>(['"])\<close>.
  \<open>aliasMatchAt\<close> is the part after the lookbehind, tried at the start of \<open>s\<close>.
\<close>

definition aliasMatchAt :: "string \<Rightarrow> string \<Rightarrow> (string \<times> char \<times> string) option" where
  "aliasMatchAt alias s =
     (if startsWith s (alias @ [slash]) then lazyUntilQuote (drop (length alias + 1) s)
      else None)"

text \<open>
  \<open>String.prototype.replace\<close> with a global pattern goes through the text from the left.
  Where the pattern matches, the match is handed to the callback and the search goes on
  behind it; elsewhere the character is kept. \<open>afterSlash\<close> is what the lookbehind sees.
\<close>

datatype piece = Keep char | Match string char

function aliasScan :: "string \<Rightarrow> bool \<Rightarrow> string \<Rightarrow> piece list" where
  "aliasScan alias afterSlash [] = []"
| "aliasScan alias afterSlash (c # cs) =
     (case (if afterSlash then None else aliasMatchAt alias (c # cs)) of
        Some (aliasPath, quote, rest) \<Rightarrow> Match aliasPath quote # aliasScan alias False rest
      | None \<Rightarrow> Keep c # aliasScan alias (c = slash) cs)"
  by pat_completeness auto

lemma lazyUntilQuote_length:
  "lazyUntilQuote s = Some (sub, q, rest) \<Longrightarrow> length rest < length s"
proof -
  assume a: "lazyUntilQuote s = Some (sub, q, rest)"
  have "length (dropWhile (\<lambda>c. \<not> isQuote c) s) \<le> length s"
    by (rule length_dropWhile_le)
  with a show ?thesis
    by (auto simp: lazyUntilQuote_def split: list.splits if_splits)
qed

lemma aliasMatchAt_length:
  "aliasMatchAt alias s = Some (sub, q, rest) \<Longrightarrow> length rest < length s"
  by (auto simp: aliasMatchAt_def split: if_splits dest!: lazyUntilQuote_length)

termination aliasScan
  by (relation "measure (\<lambda>(alias, afterSlash, s). length s)")
     (auto split: if_splits dest: aliasMatchAt_length)

text \<open>The callback of the alias stage, and the text a piece stands for.\<close>

definition aliasCallback :: "string \<Rightarrow> string \<Rightarrow> string \<Rightarrow> string \<Rightarrow> char \<Rightarrow> string" where
  "aliasCallback cwd filePath targetPath aliasPath quote =
     relative cwd (dirname filePath) (joinPath [targetPath, aliasPath]) @ [quote]"

fun aliasEmit :: "string \<Rightarrow> string \<Rightarrow> string \<Rightarrow> piece \<Rightarrow> string" where
  "aliasEmit cwd filePath targetPath (Keep c) = [c]"
| "aliasEmit cwd filePath targetPath (Match aliasPath quote) =
     aliasCallback cwd filePath targetPath aliasPath quote"

fun pieceText :: "string \<Rightarrow> piece \<Rightarrow> string" where
  "pieceText alias (Keep c) = [c]"
| "pieceText alias (Match aliasPath quote) = alias @ slash # aliasPath @ [quote]"

definition replaceAlias :: "string \<Rightarrow> string \<Rightarrow> string \<times> string \<Rightarrow> string \<Rightarrow> string" where
  "replaceAlias cwd filePath entry updated =
     (case entry of (alias, targetPath) \<Rightarrow>
        concat (map (aliasEmit cwd filePath targetPath) (aliasScan alias False updated)))"

text \<open>\<open>Object.entries(aliases).reduce(..., content)\<close>.\<close>

definition replaceAllAliases :: "string \<Rightarrow> string \<Rightarrow> (string \<times> string) list \<Rightarrow> string \<Rightarrow> string" where
  "replaceAllAliases cwd filePath entries content =
     foldl (\<lambda>updated entry. replaceAlias cwd filePath entry updated) content entries"

section \<open>The absolute-path stage\<close>

text \<open>
  The pattern \<open>['"]\/(.*?)(['"])\<close>: a quote, a slash, the lazy capture and the first quote
  after it. The two quotes need not be the same character.
\<close>

definition absMatchAt :: "string \<Rightarrow> (char \<times> string \<times> char \<times> string) option" where
  "absMatchAt s =
     (case s of
        opening # c # r \<Rightarrow>
          if isQuote opening \<and> c = slash
          then (case lazyUntilQuote r of
                  None \<Rightarrow> None
                | Some (absolutePath, quote, rest) \<Rightarrow> Some (opening, absolutePath, quote, rest))
          else None
      | _ \<Rightarrow> None)"

datatype absPiece = AbsKeep char | AbsMatch char string char

function absScan :: "string \<Rightarrow> absPiece list" where
  "absScan [] = []"
| "absScan (c # cs) =
     (case absMatchAt (c # cs) of
        Some (opening, absolutePath, quote, rest) \<Rightarrow> AbsMatch opening absolutePath quote # absScan rest
      | None \<Rightarrow> AbsKeep c # absScan cs)"
  by pat_completeness auto

lemma absMatchAt_length:
  "absMatchAt s = Some (opening, sub, q, rest) \<Longrightarrow> length rest < length s"
  by (auto simp: absMatchAt_def split: list.splits if_splits option.splits
           dest!: lazyUntilQuote_length)

termination absScan
  by (relation "measure length") (auto dest: absMatchAt_length)

text \<open>\<open>absolutePath.split('/')[0]\<close>; the split is never empty.\<close>

definition firstSegment :: "string \<Rightarrow> string" where
  "firstSegment absolutePath = (case splitSlash absolutePath of [] \<Rightarrow> [] | s # _ \<Rightarrow> s)"

definition absCallback ::
  "string \<Rightarrow> string \<Rightarrow> string \<Rightarrow> string list \<Rightarrow> char \<Rightarrow> string \<Rightarrow> char \<Rightarrow> string" where
  "absCallback cwd filePath rootDir knownDirectories opening absolutePath quote =
     (if firstSegment absolutePath \<in> set knownDirectories
      then quote # relative cwd (dirname filePath) (joinPath [rootDir, absolutePath]) @ [quote]
      else opening # slash # absolutePath @ [quote])"

fun absEmit :: "string \<Rightarrow> string \<Rightarrow> string \<Rightarrow> string list \<Rightarrow> absPiece \<Rightarrow> string" where
  "absEmit cwd filePath rootDir knownDirectories (AbsKeep c) = [c]"
| "absEmit cwd filePath rootDir knownDirectories (AbsMatch opening absolutePath quote) =
     absCallback cwd filePath rootDir knownDirectories opening absolutePath quote"

fun absPieceText :: "absPiece \<Rightarrow> string" where
  "absPieceText (AbsKeep c) = [c]"
| "absPieceText (AbsMatch opening absolutePath quote) = opening # slash # absolutePath @ [quote]"

text \<open>
  The project root is the current working directory. \<open>isInSrc\<close> is a test on the
  characters of the file's path.
\<close>

definition srcDirOf :: "string \<Rightarrow> string" where
  "srcDirOf cwd = resolve cwd [cwd, ''src'']"

definition isInSrc :: "string \<Rightarrow> string \<Rightarrow> bool" where
  "isInSrc cwd filePath \<longleftrightarrow> startsWith filePath (srcDirOf cwd)"

definition effectiveRoot :: "string \<Rightarrow> string \<Rightarrow> string" where
  "effectiveRoot cwd filePath = (if isInSrc cwd filePath then srcDirOf cwd else cwd)"

definition replaceAbsolute :: "string \<Rightarrow> string \<Rightarrow> string list \<Rightarrow> string \<Rightarrow> string" where
  "replaceAbsolute cwd filePath knownDirectories updatedContent =
     concat (map (absEmit cwd filePath (effectiveRoot cwd filePath) knownDirectories)
                 (absScan updatedContent))"

section \<open>One file\<close>

definition rewriteContent ::
  "string \<Rightarrow> bool \<Rightarrow> string list \<Rightarrow> (string \<times> string) list \<Rightarrow> string \<Rightarrow> string \<Rightarrow> string" where
  "rewriteContent cwd shouldReplaceAbsolutePaths knownDirectories entries filePath content =
     (let updatedContent = replaceAllAliases cwd filePath entries content
      in if shouldReplaceAbsolutePaths
         then replaceAbsolute cwd filePath knownDirectories updatedContent
         else updatedContent)"

definition hasExtension :: "string \<Rightarrow> bool" where
  "hasExtension filePath \<longleftrightarrow>
     endsWith filePath ''.ts'' \<or> endsWith filePath ''.vue''
     \<or> endsWith filePath ''.scss'' \<or> endsWith filePath ''.js''"

section \<open>Objects and the alias table\<close>

text \<open>
  An object with string values is the list of its properties in the order they were
  created; a key occurs once. Enumeration (\<open>Object.entries\<close>, spread) lists the keys
  that are array indices first, by ascending value, then the other keys in creation order.
\<close>

type_synonym object = "(string \<times> string) list"

definition isDigit :: "char \<Rightarrow> bool" where
  "isDigit c \<longleftrightarrow> c \<in> set ''0123456789''"

definition decimalValue :: "string \<Rightarrow> int" where
  "decimalValue k = foldl (\<lambda>n c. 10 * n + (of_char c - 48)) 0 k"

definition isArrayIndex :: "string \<Rightarrow> bool" where
  "isArrayIndex k \<longleftrightarrow>
     k \<noteq> [] \<and> list_all isDigit k \<and> (k = ''0'' \<or> take 1 k \<noteq> ''0'')
     \<and> length k \<le> 10 \<and> decimalValue k < 4294967295"

definition ownEntries :: "object \<Rightarrow> (string \<times> string) list" where
  "ownEntries obj =
     sort_key (\<lambda>(k, v). decimalValue k) (filter (\<lambda>(k, v). isArrayIndex k) obj)
     @ filter (\<lambda>(k, v). \<not> isArrayIndex k) obj"

definition setProperty :: "object \<Rightarrow> string \<times> string \<Rightarrow> object" where
  "setProperty obj kv =
     (if fst kv \<in> fst ` set obj
      then map (\<lambda>(k, v). if k = fst kv then kv else (k, v)) obj
      else obj @ [kv])"

text \<open>The object literal \<open>{ ...a, ...b }\<close>.\<close>

definition spread :: "object \<Rightarrow> object \<Rightarrow> object" where
  "spread a b = foldl setProperty (foldl setProperty [] (ownEntries a)) (ownEntries b)"

text \<open>
  What the configuration provider returns; a field that is \<open>undefined\<close> is \<open>None\<close>.
\<close>

record nuxtConfig =
  configRootDir :: "string option"
  configSrcDir :: "string option"
  configAlias :: "object option"

datatype error =
    ConfigLoadFailed
  | InvalidArgType
  | ENOENT
  | ENOTDIR

definition defaultAliases :: "string \<Rightarrow> string \<Rightarrow> object" where
  "defaultAliases srcDir rootDir =
     [(''~'', srcDir),
      (''@'', srcDir),
      (''~~'', rootDir),
      (''@@'', rootDir),
      (''assets'', joinPath [srcDir, ''assets'']),
      (''public'', joinPath [srcDir, ''public''])]"

text \<open>\<open>a || b\<close> on a string that may be undefined: the empty string is falsy too.\<close>

definition orElse :: "string option \<Rightarrow> string \<Rightarrow> string" where
  "orElse a b = (case a of None \<Rightarrow> b | Some s \<Rightarrow> if s = [] then b else s)"

definition resolvedRootDir :: "string \<Rightarrow> nuxtConfig \<Rightarrow> string" where
  "resolvedRootDir cwd nuxtConfig = orElse (configRootDir nuxtConfig) cwd"

text \<open>\<open>path.isAbsolute\<close> throws on an argument that is not a string.\<close>

definition resolvedSrcDir :: "string \<Rightarrow> nuxtConfig \<Rightarrow> error + string" where
  "resolvedSrcDir cwd nuxtConfig =
     (case configSrcDir nuxtConfig of
        None \<Rightarrow> Inl InvalidArgType
      | Some s \<Rightarrow>
          Inr (if isAbsolute s then s
               else resolve cwd
                      [resolvedRootDir cwd nuxtConfig, orElse (configSrcDir nuxtConfig) ''src'']))"

text \<open>
  \<open>getAliasesWithPaths\<close>; \<open>loaded\<close> is the outcome of \<open>loadNuxtConfig\<close>. \<open>Inl\<close> is the
  catch block, which reports the error and ends the process with code 1.
\<close>

definition getAliasesWithPaths :: "string \<Rightarrow> error + nuxtConfig \<Rightarrow> error + object" where
  "getAliasesWithPaths cwd loaded =
     (case loaded of
        Inl e \<Rightarrow> Inl e
      | Inr nuxtConfig \<Rightarrow>
          (case resolvedSrcDir cwd nuxtConfig of
             Inl e \<Rightarrow> Inl e
           | Inr srcDir \<Rightarrow>
               Inr (spread (defaultAliases srcDir (resolvedRootDir cwd nuxtConfig))
                           (case configAlias nuxtConfig of None \<Rightarrow> [] | Some userAliases \<Rightarrow> userAliases))))"

section \<open>The file tree\<close>

text \<open>
  A directory lists its entries in the order \<open>readdirSync\<close> returns them; everything that
  is not a directory is a file with its text.
\<close>

datatype node = File string | Dir "(string \<times> node) list"

definition isDirectory :: "node \<Rightarrow> bool" where
  "isDirectory n \<longleftrightarrow> (case n of Dir _ \<Rightarrow> True | File _ \<Rightarrow> False)"

definition getVisibleDirectories :: "(string \<times> node) list \<Rightarrow> string list" where
  "getVisibleDirectories entries =
     map fst (filter (\<lambda>(file, n). isDirectory n \<and> \<not> startsWith file ''.'') entries)"

text \<open>\<open>Array.from(new Set(xs))\<close>: the first occurrence of each element stays.\<close>

definition uniqueInOrder :: "string list \<Rightarrow> string list" where
  "uniqueInOrder xs = foldl (\<lambda>acc x. if x \<in> set acc then acc else acc @ [x]) [] xs"

definition getKnownDirectories :: "(string \<times> node) list \<Rightarrow> error + string list" where
  "getKnownDirectories projectEntries =
     (case map_of projectEntries ''src'' of
        None \<Rightarrow> Inr (uniqueInOrder (getVisibleDirectories projectEntries))
      | Some (File _) \<Rightarrow> Inl ENOTDIR
      | Some (Dir srcEntries) \<Rightarrow>
          Inr (uniqueInOrder (getVisibleDirectories projectEntries @ getVisibleDirectories srcEntries)))"

text \<open>The number of directories in a tree, the top one included.\<close>

fun countDirectories :: "node \<Rightarrow> nat" where
  "countDirectories (File content) = 0"
| "countDirectories (Dir entries) = Suc (sum_list (map (\<lambda>(file, n). countDirectories n) entries))"

section \<open>The tree walker\<close>

text \<open>
  What a run does to the outside, in the order in which it does it: a call of
  \<open>loadNuxtConfig\<close>, a directory listed, a file read, a file written with its new text, a
  line on the console with its second argument, the end of the process with a code, and
  an error that nothing catches.
\<close>

datatype event =
    LoadConfig
  | ReadDir string
  | ReadFile string
  | WriteFile string string
  | ConsoleLog string "string list option"
  | ConsoleError string "error option"
  | Exit nat
  | Uncaught error

text \<open>
  What stays the same during a run: the working directory (the project root), whether
  \<open>--replace-absolute\<close> was given, and the known directories. The configuration is loaded
  many times; \<open>configOutcome e k\<close> is the outcome of the call number \<open>k\<close>, counted from 0.
\<close>

record env =
  projectRoot :: string
  replaceAbsoluteFlag :: bool
  knownDirs :: "string list"
  configOutcome :: "nat \<Rightarrow> error + nuxtConfig"

text \<open>What the loop body does with an entry that is a file.\<close>

definition processFile :: "env \<Rightarrow> object \<Rightarrow> string \<Rightarrow> string \<Rightarrow> event list" where
  "processFile e aliases filePath content =
     (if hasExtension filePath
      then ReadFile filePath #
           (let finalContent =
                  rewriteContent (projectRoot e) (replaceAbsoluteFlag e) (knownDirs e)
                    (ownEntries aliases) filePath content
            in if finalContent \<noteq> content
               then [WriteFile filePath finalContent,
                     ConsoleLog (''Updated imports in '' @ filePath) None]
               else [])
      else [])"

text \<open>
  The loop body. For a directory it calls \<open>replaceAliases\<close> and does not await it: the call
  runs as far as its own \<open>await\<close>, that is, it starts to load the configuration, and the
  loop goes on. \<open>startedCalls\<close> are the calls that one loop leaves waiting, in its order.
\<close>

definition visitEntry :: "env \<Rightarrow> object \<Rightarrow> string \<Rightarrow> string \<times> node \<Rightarrow> event list" where
  "visitEntry e aliases dir entry =
     (case entry of (file, n) \<Rightarrow>
        (case n of
           Dir _ \<Rightarrow> [LoadConfig]
         | File content \<Rightarrow> processFile e aliases (joinPath [dir, file]) content))"

definition startedCalls :: "string \<Rightarrow> (string \<times> node) list \<Rightarrow> (string \<times> node) list" where
  "startedCalls dir entries =
     map (\<lambda>(file, n). (joinPath [dir, file], n)) (filter (\<lambda>(file, n). isDirectory n) entries)"

text \<open>
  The calls of \<open>replaceAliases\<close> that wait for their configuration, each with the path it was
  called on and the node at that path. The loads are taken to finish in the order in which
  they were started, so the calls go on in the order in which they were made; \<open>k\<close> is the
  number of the load that the first of them waits for. A call that goes on builds the
  alias table (or reports the failure and ends the process), lists its directory and runs
  the loop; the calls which the loop makes wait behind those that wait already.
\<close>

function resumeCalls :: "env \<Rightarrow> nat \<Rightarrow> (string \<times> node) list \<Rightarrow> event list" where
  "resumeCalls e k [] = []"
| "resumeCalls e k ((dir, File content) # pending) =
     (case getAliasesWithPaths (projectRoot e) (configOutcome e k) of
        Inl err \<Rightarrow> [ConsoleError ''Error loading Nuxt configuration:'' (Some err), Exit 1]
      | Inr aliases \<Rightarrow> [Uncaught ENOTDIR])"
| "resumeCalls e k ((dir, Dir entries) # pending) =
     (case getAliasesWithPaths (projectRoot e) (configOutcome e k) of
        Inl err \<Rightarrow> [ConsoleError ''Error loading Nuxt configuration:'' (Some err), Exit 1]
      | Inr aliases \<Rightarrow>
          ReadDir dir # concat (map (visitEntry e aliases dir) entries)
          @ resumeCalls e (Suc k) (pending @ startedCalls dir entries))"
  by pat_completeness auto

lemma startedCalls_count:
  "sum_list (map (\<lambda>(dir, n). countDirectories n) (startedCalls dir entries))
     = sum_list (map (\<lambda>(file, n). countDirectories n) entries)"
proof (induction entries)
  case Nil
  show ?case by (simp add: startedCalls_def)
next
  case (Cons entry entries)
  obtain name n where entry: "entry = (name, n)" by (cases entry)
  from Cons show ?case
    by (cases n) (simp_all add: startedCalls_def entry isDirectory_def)
qed

termination resumeCalls
  by (relation "measure (\<lambda>(e, k, pending). sum_list (map (\<lambda>(dir, n). countDirectories n) pending))")
     (simp_all add: startedCalls_count)

text \<open>
  The number of directories at and below the paths of the waiting calls: so many calls go
  on when no load fails.
\<close>

definition callsBelow :: "(string \<times> node) list \<Rightarrow> nat" where
  "callsBelow pending = sum_list (map (\<lambda>(dir, n). countDirectories n) pending)"

text \<open>
  \<open>replaceAliases\<close>, called from the top level on the path \<open>dir\<close> whose node is given: it
  starts the first load, and everything else follows from there.
\<close>

definition replaceAliases :: "env \<Rightarrow> string \<Rightarrow> node \<Rightarrow> event list" where
  "replaceAliases e dir n = LoadConfig # resumeCalls e 0 [(dir, n)]"

section \<open>The program\<close>

text \<open>Nothing happens after the process has ended.\<close>

fun isFinal :: "event \<Rightarrow> bool" where
  "isFinal (Exit n) = True"
| "isFinal (Uncaught err) = True"
| "isFinal _ = False"

fun untilFinal :: "event list \<Rightarrow> event list" where
  "untilFinal [] = []"
| "untilFinal (ev # evs) = (if isFinal ev then [ev] else ev # untilFinal evs)"

definition existsSync :: "(string \<times> node) list \<Rightarrow> string \<Rightarrow> bool" where
  "existsSync projectEntries name \<longleftrightarrow> name \<in> fst ` set projectEntries"

definition startDir :: "string \<Rightarrow> string" where
  "startDir cwd = resolve cwd [cwd, ''src'']"

text \<open>
  The directories that \<open>getKnownDirectories\<close> lists: the project root, and \<open>src\<close> if it is
  there. Listing \<open>src\<close> throws if it is a file.
\<close>

definition knownDirectoriesListed :: "string \<Rightarrow> (string \<times> node) list \<Rightarrow> event list" where
  "knownDirectoriesListed cwd projectEntries =
     ReadDir cwd #
     (case map_of projectEntries ''src'' of
        Some (Dir srcEntries) \<Rightarrow> [ReadDir (resolve cwd [cwd, ''src''])]
      | _ \<Rightarrow> [])"

text \<open>
  The last statement of the script, \<open>replaceAliases(startDir)\<close>. Where there is no \<open>src\<close>,
  listing it throws once the table is built.
\<close>

definition traverse :: "env \<Rightarrow> (string \<times> node) list \<Rightarrow> event list" where
  "traverse e projectEntries =
     (case map_of projectEntries ''src'' of
        Some n \<Rightarrow> replaceAliases e (startDir (projectRoot e)) n
      | None \<Rightarrow>
          LoadConfig #
          (case getAliasesWithPaths (projectRoot e) (configOutcome e 0) of
             Inl err \<Rightarrow> [ConsoleError ''Error loading Nuxt configuration:'' (Some err), Exit 1]
           | Inr aliases \<Rightarrow> [Uncaught ENOENT]))"

text \<open>
  The whole script, run in the directory \<open>cwd\<close> whose entries are given, with the
  command-line arguments \<open>args\<close>; \<open>provider k\<close> is the outcome of the call number \<open>k\<close> of
  \<open>loadNuxtConfig\<close>.
\<close>

definition main ::
  "string \<Rightarrow> string list \<Rightarrow> (nat \<Rightarrow> error + nuxtConfig) \<Rightarrow> (string \<times> node) list \<Rightarrow> event list" where
  "main cwd args provider projectEntries =
     untilFinal
       (if \<not> existsSync projectEntries ''nuxt.config.ts'' \<and> \<not> existsSync projectEntries ''nuxt.config.js''
        then [ConsoleError ''Error: Nuxt configuration file not found. Please make sure nuxt.config.ts or nuxt.config.js exists in the project root.'' None,
              Exit 1]
        else if ''--replace-absolute'' \<in> set args
        then knownDirectoriesListed cwd projectEntries @
             (case getKnownDirectories projectEntries of
                Inl err \<Rightarrow> [Uncaught err]
              | Inr known \<Rightarrow>
                  ConsoleLog ''Will replace all absolute paths starting from any of these path segments: ''
                    (Some known) #
                  traverse \<lparr>projectRoot = cwd, replaceAbsoluteFlag = True,
                            knownDirs = known, configOutcome = provider\<rparr> projectEntries)
        else traverse \<lparr>projectRoot = cwd, replaceAbsoluteFlag = False,
                       knownDirs = [], configOutcome = provider\<rparr> projectEntries)"

text \<open>A provider that gives the same outcome at every call.\<close>

definition always :: "error + nuxtConfig \<Rightarrow> nat \<Rightarrow> error + nuxtConfig" where
  "always loaded k = loaded"

text \<open>
  The code with which the process ends, as far as the script decides it: the argument of
  \<open>process.exit\<close>, 0 when the script runs to its end, and none where an error is not
  caught, since the runtime chooses the code then.
\<close>

definition exitCode :: "event list \<Rightarrow> nat option" where
  "exitCode evs =
     (case filter isFinal evs of
        [] \<Rightarrow> Some 0
      | Exit n # _ \<Rightarrow> Some n
      | _ \<Rightarrow> None)"

section \<open>What a run can reach\<close>

text \<open>
  The files below a directory, each with the path the walker builds for it and its text,
  and the names a directory listing can contain: not empty, no slash, neither \<open>.\<close> nor
  \<open>..\<close>.
\<close>

fun filesUnder :: "string \<Rightarrow> node \<Rightarrow> (string \<times> string) list" where
  "filesUnder dir (File content) = []"
| "filesUnder dir (Dir entries) =
     concat (map (\<lambda>(file, n).
                    (case n of
                       Dir _ \<Rightarrow> filesUnder (joinPath [dir, file]) n
                     | File content \<Rightarrow> [(joinPath [dir, file], content)]))
                 entries)"

definition validName :: "string \<Rightarrow> bool" where
  "validName file \<longleftrightarrow> file \<noteq> [] \<and> slash \<notin> set file \<and> file \<noteq> ''.'' \<and> file \<noteq> ''..''"

fun wellNamed :: "node \<Rightarrow> bool" where
  "wellNamed (File content) = True"
| "wellNamed (Dir entries) = list_all (\<lambda>(file, n). validName file \<and> wellNamed n) entries"

text \<open>An absolute path in normal form: a slash, and valid names with slashes between them.\<close>

definition normalAbsolute :: "string \<Rightarrow> bool" where
  "normalAbsolute p \<longleftrightarrow> (\<exists>segs. p = slash # joinSlash segs \<and> list_all validName segs)"

section \<open>Properties of the alias stage\<close>

lemma startsWith_iff: "startsWith s p \<longleftrightarrow> (\<exists>r. s = p @ r)"
proof
  assume "startsWith s p"
  then have "s = p @ drop (length p) s"
    unfolding startsWith_def by (metis append_take_drop_id)
  then show "\<exists>r. s = p @ r" ..
next
  assume "\<exists>r. s = p @ r"
  then show "startsWith s p"
    unfolding startsWith_def by auto
qed

lemma lazyUntilQuote_Some_iff:
  "lazyUntilQuote s = Some (sub, q, rest) \<longleftrightarrow>
     s = sub @ q # rest \<and> isQuote q \<and> (\<forall>c \<in> set sub. \<not> isQuote c) \<and> \<not> hasLineTerminator sub"
proof
  assume a: "lazyUntilQuote s = Some (sub, q, rest)"
  then have d: "dropWhile (\<lambda>c. \<not> isQuote c) s = q # rest"
    and t: "takeWhile (\<lambda>c. \<not> isQuote c) s = sub"
    and l: "\<not> hasLineTerminator sub"
    by (auto simp: lazyUntilQuote_def split: list.splits if_splits)
  have "s = sub @ q # rest"
    using takeWhile_dropWhile_id [of "\<lambda>c. \<not> isQuote c" s] d t by simp
  moreover have "isQuote q"
    using d by (simp add: dropWhile_eq_Cons_conv)
  moreover have "\<forall>c \<in> set sub. \<not> isQuote c"
    using t set_takeWhileD [of _ "\<lambda>c. \<not> isQuote c" s] by blast
  ultimately show "s = sub @ q # rest \<and> isQuote q \<and> (\<forall>c \<in> set sub. \<not> isQuote c) \<and> \<not> hasLineTerminator sub"
    using l by simp
next
  assume a: "s = sub @ q # rest \<and> isQuote q \<and> (\<forall>c \<in> set sub. \<not> isQuote c) \<and> \<not> hasLineTerminator sub"
  then have "takeWhile (\<lambda>c. \<not> isQuote c) s = sub" "dropWhile (\<lambda>c. \<not> isQuote c) s = q # rest"
    by (simp_all add: takeWhile_append2 dropWhile_append2)
  with a show "lazyUntilQuote s = Some (sub, q, rest)"
    by (simp add: lazyUntilQuote_def)
qed

lemma aliasMatchAt_Some_iff:
  "aliasMatchAt t s = Some (sub, q, rest) \<longleftrightarrow>
     s = t @ slash # sub @ q # rest \<and> isQuote q \<and> (\<forall>c \<in> set sub. \<not> isQuote c) \<and> \<not> hasLineTerminator sub"
proof (cases "startsWith s (t @ [slash])")
  case True
  then obtain r where r: "s = t @ slash # r"
    by (auto simp: startsWith_iff)
  then have "aliasMatchAt t s = lazyUntilQuote r"
    using True by (simp add: aliasMatchAt_def)
  then show ?thesis
    by (simp add: lazyUntilQuote_Some_iff r)
next
  case False
  then have "s \<noteq> t @ slash # sub @ q # rest"
    by (auto simp: startsWith_iff)
  with False show ?thesis
    by (simp add: aliasMatchAt_def)
qed

lemma aliasScan_Keep:
  "b \<or> aliasMatchAt t (c # cs) = None \<Longrightarrow>
     aliasScan t b (c # cs) = Keep c # aliasScan t (c = slash) cs"
  by auto

lemma aliasScan_Match:
  assumes "isQuote q" "\<forall>c \<in> set sub. \<not> isQuote c" "\<not> hasLineTerminator sub"
  shows "aliasScan t False (t @ slash # sub @ q # rest) = Match sub q # aliasScan t False rest"
proof -
  obtain c cs where s: "t @ slash # sub @ q # rest = c # cs"
    by (cases "t @ slash # sub @ q # rest") auto
  have "aliasMatchAt t (c # cs) = Some (sub, q, rest)"
    using assms by (simp add: aliasMatchAt_Some_iff s [symmetric])
  then have "aliasScan t False (c # cs) = Match sub q # aliasScan t False rest"
    by simp
  then show ?thesis
    by (simp only: s)
qed

lemma aliasScan_induct [consumes 0, case_names Nil Keep Match]:
  assumes nil: "\<And>b. P b []"
    and keep: "\<And>b c cs. b \<or> aliasMatchAt t (c # cs) = None \<Longrightarrow> P (c = slash) cs \<Longrightarrow> P b (c # cs)"
    and match: "\<And>sub q rest. isQuote q \<Longrightarrow> \<forall>c \<in> set sub. \<not> isQuote c \<Longrightarrow>
                  \<not> hasLineTerminator sub \<Longrightarrow> P False rest \<Longrightarrow>
                  P False (t @ slash # sub @ q # rest)"
  shows "P b s"
proof (induction "length s" arbitrary: b s rule: less_induct)
  case less
  show ?case
  proof (cases s)
    case Nil
    then show ?thesis by (simp add: nil)
  next
    case (Cons c cs)
    show ?thesis
    proof (cases "b \<or> aliasMatchAt t (c # cs) = None")
      case True
      moreover have "P (c = slash) cs"
        by (rule less) (simp add: Cons)
      ultimately show ?thesis
        unfolding Cons by (rule keep)
    next
      case False
      then obtain sub q rest where m: "aliasMatchAt t (c # cs) = Some (sub, q, rest)"
        by (cases "aliasMatchAt t (c # cs)") auto
      then have eq: "s = t @ slash # sub @ q # rest"
        and q: "isQuote q" "\<forall>c \<in> set sub. \<not> isQuote c" "\<not> hasLineTerminator sub"
        by (simp_all add: aliasMatchAt_Some_iff Cons)
      have "length rest < length s"
        using aliasMatchAt_length [OF m] by (simp add: Cons)
      then have "P False rest"
        by (rule less)
      with q have "P False (t @ slash # sub @ q # rest)"
        by (intro match)
      with False eq show ?thesis by simp
    qed
  qed
qed

lemma aliasScan_text: "concat (map (pieceText t) (aliasScan t b s)) = s"
proof (induction b s rule: aliasScan_induct [where t = t])
  case (Nil b)
  show ?case by simp
next
  case (Keep b c cs)
  then show ?case by (simp only: aliasScan_Keep) simp
next
  case (Match sub q rest)
  then show ?case by (simp add: aliasScan_Match [OF Match.hyps(1-3)])
qed

text \<open>A match never begins behind a slash.\<close>

lemma aliasScan_guard:
  "aliasScan t b s = ps @ Match aliasPath quote # qs \<Longrightarrow>
     (if concat (map (pieceText t) ps) = [] then \<not> b
      else last (concat (map (pieceText t) ps)) \<noteq> slash)"
proof (induction b s arbitrary: ps rule: aliasScan_induct [where t = t])
  case (Nil b)
  then show ?case by simp
next
  case (Keep b c cs)
  from Keep.prems have "Keep c # aliasScan t (c = slash) cs = ps @ Match aliasPath quote # qs"
    by (simp only: aliasScan_Keep [OF Keep.hyps])
  then obtain ps' where ps: "ps = Keep c # ps'"
    and rest: "aliasScan t (c = slash) cs = ps' @ Match aliasPath quote # qs"
    by (cases ps) auto
  from Keep.IH [OF rest] show ?case
    by (auto simp: ps split: if_splits)
next
  case (Match sub q rest)
  from Match.prems have
    scan: "Match sub q # aliasScan t False rest = ps @ Match aliasPath quote # qs"
    by (simp only: aliasScan_Match [OF Match.hyps(1-3)])
  show ?case
  proof (cases ps)
    case Nil
    then show ?thesis by simp
  next
    case (Cons p ps')
    with scan have p: "p = Match sub q"
      and rest: "aliasScan t False rest = ps' @ Match aliasPath quote # qs"
      by simp_all
    from Match.IH [OF rest] Match.hyps(1) show ?thesis
      by (auto simp: Cons p isQuote_def slash_def split: if_splits)
  qed
qed

lemma endsWith_slash: "endsWith s ''/'' \<longleftrightarrow> s \<noteq> [] \<and> last s = slash"
proof (cases s rule: rev_cases)
  case Nil
  then show ?thesis by (simp add: endsWith_def)
next
  case (snoc ys y)
  then show ?thesis by (simp add: endsWith_def slash_def)
qed

text \<open>
  Claim C3, as far as it holds. The pass for one alias splits the text into kept characters
  and matches, and the pieces spell the text. The text in front of a match never ends in a
  slash: no match begins at an alias that stands directly behind a slash. (The characters
  of such an alias can still lie inside a match that begins somewhere else.)
\<close>

theorem alias_behind_slash_starts_no_match:
  "concat (map (pieceText t) (aliasScan t False content)) = content \<and>
   (\<forall>ps aliasPath quote qs.
      aliasScan t False content = ps @ Match aliasPath quote # qs \<longrightarrow>
      \<not> endsWith (concat (map (pieceText t) ps)) ''/'')"
proof (intro conjI allI impI)
  show "concat (map (pieceText t) (aliasScan t False content)) = content"
    by (rule aliasScan_text)
next
  fix ps aliasPath quote qs
  assume "aliasScan t False content = ps @ Match aliasPath quote # qs"
  from aliasScan_guard [OF this]
  show "\<not> endsWith (concat (map (pieceText t) ps)) ''/''"
    unfolding endsWith_slash by (simp split: if_splits)
qed

theorem alias_behind_slash_starts_no_match_witness:
  \<open>aliasScan ''~'' False ''a/~/b "~/c" ''
     = map Keep ''a/~/b "'' @ Match ''c'' (CHR 0x22) # [Keep CHR '' '']
   \<and> \<not> endsWith (concat (map (pieceText ''~'') (map Keep ''a/~/b "''))) ''/''\<close>
proof -
  have scan: \<open>aliasScan ''~'' False ''a/~/b "~/c" ''
     = map Keep ''a/~/b "'' @ Match ''c'' (CHR 0x22) # [Keep CHR '' '']\<close>
    by code_simp
  from alias_behind_slash_starts_no_match [of "''~''" \<open>''a/~/b "~/c" ''\<close>] scan
  show ?thesis by blast
qed

text \<open>
  Claim C3 as it is written fails where a match that begins elsewhere covers the
  characters: here the pass for \<open>~\<close> finds \<open>~/b'\<close> behind the \<open>a\<close>.
\<close>

theorem alias_behind_slash_counterexample:
  "replaceAlias ''/proj'' ''/proj/src/a.js'' (''~'', ''/proj/src'') ''x = '/~/a~/b' ''
     = ''x = '/~/ab' ''"
  by code_simp

lemma pieceText_notNil: "pieceText t p \<noteq> []"
  by (cases p) simp_all

lemma text_Nil_iff: "concat (map (pieceText t) ps) = [] \<longleftrightarrow> ps = []"
  by (cases ps) (simp_all add: pieceText_notNil)

lemma text_Cons_last:
  "last (concat (map (pieceText t) (p # ps))) =
     (if ps = [] then last (pieceText t p) else last (concat (map (pieceText t) ps)))"
  by (simp add: text_Nil_iff pieceText_notNil del: concat_eq_Nil_conv)

lemma aliasScan_suffix:
  "aliasScan t b s = ps @ qs \<Longrightarrow>
     qs = aliasScan t (if ps = [] then b else last (concat (map (pieceText t) ps)) = slash)
            (concat (map (pieceText t) qs))"
proof (induction b s arbitrary: ps rule: aliasScan_induct [where t = t])
  case (Nil b)
  then show ?case by simp
next
  case (Keep b c cs)
  from Keep.prems have scan: "Keep c # aliasScan t (c = slash) cs = ps @ qs"
    by (simp only: aliasScan_Keep [OF Keep.hyps])
  show ?case
  proof (cases ps)
    case Nil
    with Keep.prems have "qs = aliasScan t b (c # cs)" by simp
    then show ?thesis
      using aliasScan_text [of t b "c # cs"] by (simp add: Nil)
  next
    case (Cons p ps')
    with scan have p: "p = Keep c" and rest: "aliasScan t (c = slash) cs = ps' @ qs"
      by simp_all
    from Keep.IH [OF rest] show ?thesis
      unfolding Cons p text_Cons_last by (simp split: if_splits)
  qed
next
  case (Match sub q rest)
  from Match.prems have scan: "Match sub q # aliasScan t False rest = ps @ qs"
    by (simp only: aliasScan_Match [OF Match.hyps(1-3)])
  show ?case
  proof (cases ps)
    case Nil
    with Match.prems have "qs = aliasScan t False (t @ slash # sub @ q # rest)" by simp
    then show ?thesis
      using aliasScan_text [of t False "t @ slash # sub @ q # rest"] by (simp add: Nil)
  next
    case (Cons p ps')
    with scan have p: "p = Match sub q" and rest: "aliasScan t False rest = ps' @ qs"
      by simp_all
    have "q \<noteq> slash"
      using Match.hyps(1) by (auto simp: isQuote_def slash_def)
    with Match.IH [OF rest] show ?thesis
      unfolding Cons p text_Cons_last by (simp split: if_splits)
  qed
qed

text \<open>
  Claim C1, as far as it holds: the pass for one alias \<open>t\<close> with target \<open>targetPath\<close>, on
  the text that it is given. Let the text contain \<open>t\<close>, a slash, a subpath without quotes
  and line terminators, and a quote, with no slash in front of \<open>t\<close>, and let no earlier
  match of the pass reach into this occurrence: the pieces \<open>ps\<close> of the scan spell
  exactly the text \<open>pre\<close> in front of it. Then the occurrence is replaced by the relative
  path from the file's directory to \<open>targetPath\<close> joined with the subpath, followed by
  the same quote, and the text behind it is rewritten as if it stood alone.
\<close>

theorem alias_match_rewritten:
  assumes whole: "content = pre @ t @ ''/'' @ subpath @ quote # post"
    and cut: "aliasScan t False content = ps @ qs"
    and front: "concat (map (pieceText t) ps) = pre"
    and guard: "\<not> endsWith pre ''/''"
    and qt: "isQuote quote" "\<forall>c \<in> set subpath. \<not> isQuote c"
    and nolt: "\<not> hasLineTerminator subpath"
  shows "replaceAlias cwd filePath (t, targetPath) content
         = concat (map (aliasEmit cwd filePath targetPath) ps)
           @ relative cwd (dirname filePath) (joinPath [targetPath, subpath])
           @ quote # replaceAlias cwd filePath (t, targetPath) post"
proof -
  have "concat (map (pieceText t) ps) @ concat (map (pieceText t) qs) = content"
    using aliasScan_text [of t False content] by (simp add: cut)
  then have after: "concat (map (pieceText t) qs) = t @ slash # subpath @ quote # post"
    by (simp add: front whole slash_def)
  have "ps = [] \<longleftrightarrow> pre = []"
    using text_Nil_iff [of t ps] by (simp only: front)
  then have flag: "(if ps = [] then False else last pre = slash) = False"
    using guard by (auto simp: endsWith_slash)
  have "qs = aliasScan t False (t @ slash # subpath @ quote # post)"
    using aliasScan_suffix [OF cut] by (simp only: front flag after)
  then have "qs = Match subpath quote # aliasScan t False post"
    by (simp only: aliasScan_Match [OF qt nolt])
  then show ?thesis
    by (simp add: replaceAlias_def cut aliasCallback_def)
qed

theorem alias_match_rewritten_witness:
  "replaceAlias ''/proj'' ''/proj/src/components/A.vue'' (''~'', ''/proj/src'')
     ''import X from '~/utils/x';''
   = ''import X from '../utils/x';''"
proof -
  have cut: "aliasScan ''~'' False ''import X from '~/utils/x';''
        = map Keep (''import X from '' @ [CHR 0x27]) @ [Match ''utils/x'' (CHR 0x27), Keep CHR '';'']"
    by code_simp
  have front: "concat (map (pieceText ''~'') (map Keep (''import X from '' @ [CHR 0x27])))
        = ''import X from '' @ [CHR 0x27]"
    by code_simp
  have whole: "''import X from '~/utils/x';''
        = (''import X from '' @ [CHR 0x27]) @ ''~'' @ ''/'' @ ''utils/x'' @ CHR 0x27 # '';''"
    by simp
  have guard: "\<not> endsWith (''import X from '' @ [CHR 0x27]) ''/''"
    by code_simp
  have qt: "isQuote (CHR 0x27)" "\<forall>c \<in> set ''utils/x''. \<not> isQuote c"
    by code_simp+
  have nolt: "\<not> hasLineTerminator ''utils/x''"
    by code_simp
  have "concat (map (aliasEmit ''/proj'' ''/proj/src/components/A.vue'' ''/proj/src'')
                 (map Keep (''import X from '' @ [CHR 0x27])))
        @ relative ''/proj'' (dirname ''/proj/src/components/A.vue'') (joinPath [''/proj/src'', ''utils/x''])
        @ CHR 0x27 # replaceAlias ''/proj'' ''/proj/src/components/A.vue'' (''~'', ''/proj/src'') '';''
       = ''import X from '../utils/x';''"
    by code_simp
  with alias_match_rewritten [OF whole cut front guard qt nolt, of "''/proj''" "''/proj/src/components/A.vue''" "''/proj/src''"]
  show ?thesis by simp
qed

text \<open>
  Claim C1 as it is written fails in three ways. The passes run one after the other on
  each other's output, so the path which the pass for \<open>~\<close> has written is matched again by
  the pass for \<open>assets\<close>; a match is not searched inside an earlier match of the same pass;
  and the dot of the pattern does not cross a line break.
\<close>

theorem alias_match_counterexample:
  "replaceAllAliases ''/proj'' ''/proj/src/pages/a.js'' (defaultAliases ''/proj/src'' ''/proj'')
     ''import X from '~/pages/assets/x';''
   = ''import X from '../assets/x';''
   \<and> relative ''/proj'' (dirname ''/proj/src/pages/a.js'') (joinPath [''/proj/src'', ''pages/assets/x''])
     = ''assets/x''
   \<and> replaceAlias ''/proj'' ''/proj/src/a.js'' (''~'', ''/proj/src'') ''x = '~/a~/b';''
     = ''x = 'a~/b';''
   \<and> replaceAlias ''/proj'' ''/proj/src/a.js'' (''~'', ''/proj/src'') ''/* ~/a \<newline> */ x = 'b';''
     = ''/* ~/a \<newline> */ x = 'b';''"
  by code_simp

section \<open>Properties of the absolute-path stage\<close>

lemma absMatchAt_Some_iff:
  "absMatchAt s = Some (opening, sub, q, rest) \<longleftrightarrow>
     s = opening # slash # sub @ q # rest \<and> isQuote opening \<and> isQuote q
     \<and> (\<forall>c \<in> set sub. \<not> isQuote c) \<and> \<not> hasLineTerminator sub"
proof (cases s)
  case Nil
  then show ?thesis by (simp add: absMatchAt_def)
next
  case (Cons a as)
  show ?thesis
  proof (cases as)
    case Nil
    with Cons show ?thesis by (simp add: absMatchAt_def)
  next
    case (Cons c r)
    show ?thesis
    proof (cases "lazyUntilQuote r")
      case None
      then have "\<And>x y z. \<not> (r = x @ y # z \<and> isQuote y \<and> (\<forall>c \<in> set x. \<not> isQuote c) \<and> \<not> hasLineTerminator x)"
        using lazyUntilQuote_Some_iff [of r] by (metis option.distinct(1))
      with None \<open>s = a # as\<close> Cons show ?thesis
        by (auto simp: absMatchAt_def)
    next
      case (Some m)
      obtain x y z where m: "m = (x, y, z)" by (cases m) auto
      have "(sub = x \<and> q = y \<and> rest = z) \<longleftrightarrow>
            (r = sub @ q # rest \<and> isQuote q \<and> (\<forall>c \<in> set sub. \<not> isQuote c) \<and> \<not> hasLineTerminator sub)"
        using lazyUntilQuote_Some_iff [of r sub q rest] Some m by auto
      with Some m \<open>s = a # as\<close> Cons show ?thesis
        by (auto simp: absMatchAt_def)
    qed
  qed
qed

lemma absScan_Keep:
  "absMatchAt (c # cs) = None \<Longrightarrow> absScan (c # cs) = AbsKeep c # absScan cs"
  by simp

lemma absScan_Match:
  assumes "isQuote opening" "isQuote q" "\<forall>c \<in> set sub. \<not> isQuote c" "\<not> hasLineTerminator sub"
  shows "absScan (opening # slash # sub @ q # rest) = AbsMatch opening sub q # absScan rest"
proof -
  have "absMatchAt (opening # slash # sub @ q # rest) = Some (opening, sub, q, rest)"
    using assms by (simp add: absMatchAt_Some_iff)
  then show ?thesis by simp
qed

lemma absScan_induct [consumes 0, case_names Nil Keep Match]:
  assumes nil: "P []"
    and keep: "\<And>c cs. absMatchAt (c # cs) = None \<Longrightarrow> P cs \<Longrightarrow> P (c # cs)"
    and match: "\<And>opening sub q rest. isQuote opening \<Longrightarrow> isQuote q \<Longrightarrow>
                  \<forall>c \<in> set sub. \<not> isQuote c \<Longrightarrow> \<not> hasLineTerminator sub \<Longrightarrow> P rest \<Longrightarrow>
                  P (opening # slash # sub @ q # rest)"
  shows "P s"
proof (induction "length s" arbitrary: s rule: less_induct)
  case less
  show ?case
  proof (cases s)
    case Nil
    then show ?thesis by (simp add: nil)
  next
    case (Cons c cs)
    show ?thesis
    proof (cases "absMatchAt (c # cs)")
      case None
      moreover have "P cs"
        by (rule less) (simp add: Cons)
      ultimately show ?thesis
        unfolding Cons by (rule keep)
    next
      case (Some m)
      then obtain opn sub q rest where m: "absMatchAt (c # cs) = Some (opn, sub, q, rest)"
        by (cases m) auto
      then have eq: "s = opn # slash # sub @ q # rest"
        and q: "isQuote opn" "isQuote q" "\<forall>c \<in> set sub. \<not> isQuote c" "\<not> hasLineTerminator sub"
        by (simp_all add: absMatchAt_Some_iff Cons)
      have "length rest < length s"
        using absMatchAt_length [OF m] by (simp add: Cons)
      then have "P rest"
        by (rule less)
      with q have "P (opn # slash # sub @ q # rest)"
        by (intro match)
      with eq show ?thesis by simp
    qed
  qed
qed

lemma absScan_text: "concat (map absPieceText (absScan s)) = s"
proof (induction s rule: absScan_induct)
  case Nil
  show ?case by simp
next
  case (Keep c cs)
  then show ?case by (simp only: absScan_Keep) simp
next
  case (Match opn sub q rest)
  then show ?case by (simp add: absScan_Match [OF Match.hyps(1-4)] del: absScan.simps)
qed

lemma absScan_suffix:
  "absScan s = ps @ qs \<Longrightarrow> qs = absScan (concat (map absPieceText qs))"
proof (induction s arbitrary: ps rule: absScan_induct)
  case Nil
  then show ?case by simp
next
  case (Keep c cs)
  from Keep.prems have scan: "AbsKeep c # absScan cs = ps @ qs"
    by (simp only: absScan_Keep [OF Keep.hyps])
  show ?case
  proof (cases ps)
    case Nil
    with Keep.prems have "qs = absScan (c # cs)" by simp
    then show ?thesis
      using absScan_text [of "c # cs"] by simp
  next
    case (Cons p ps')
    with scan have "absScan cs = ps' @ qs" by simp
    then show ?thesis by (rule Keep.IH)
  qed
next
  case (Match opn sub q rest)
  from Match.prems have scan: "AbsMatch opn sub q # absScan rest = ps @ qs"
    by (simp only: absScan_Match [OF Match.hyps(1-4)])
  show ?case
  proof (cases ps)
    case Nil
    with Match.prems have "qs = absScan (opn # slash # sub @ q # rest)" by simp
    then show ?thesis
      using absScan_text [of "opn # slash # sub @ q # rest"] by simp
  next
    case (Cons p ps')
    with scan have "absScan rest = ps' @ qs" by simp
    then show ?thesis by (rule Match.IH)
  qed
qed

text \<open>
  Claim C4, as far as it holds. Let the text contain a quote, a slash, a subpath without
  quotes and line terminators, and a quote, and let no earlier match reach into this
  occurrence: the pieces \<open>ps\<close> of the scan spell exactly the text \<open>pre\<close> in front of it.
  When the first segment of the subpath is a known directory, the occurrence is replaced
  by the relative path from the file's directory to the subpath under the effective root,
  between two copies of the closing quote; otherwise it stays as it is. The effective
  root is \<open>src\<close> under the project root when the file's path begins with the characters of
  that directory's path, and the project root otherwise.
\<close>

theorem absolute_match_rewritten:
  assumes whole: "content = pre @ opening # ''/'' @ subpath @ quote # post"
    and cut: "absScan content = ps @ qs"
    and front: "concat (map absPieceText ps) = pre"
    and qt: "isQuote opening" "isQuote quote" "\<forall>c \<in> set subpath. \<not> isQuote c"
    and nolt: "\<not> hasLineTerminator subpath"
  shows "replaceAbsolute cwd filePath knownDirectories content
         = concat (map (absEmit cwd filePath (effectiveRoot cwd filePath) knownDirectories) ps)
           @ (if firstSegment subpath \<in> set knownDirectories
              then quote # relative cwd (dirname filePath)
                             (joinPath [effectiveRoot cwd filePath, subpath]) @ [quote]
              else opening # ''/'' @ subpath @ [quote])
           @ replaceAbsolute cwd filePath knownDirectories post
         \<and> effectiveRoot cwd filePath
           = (if startsWith filePath (resolve cwd [cwd, ''src'']) then resolve cwd [cwd, ''src'']
              else cwd)"
proof
  have "concat (map absPieceText ps) @ concat (map absPieceText qs) = content"
    using absScan_text [of content] by (simp add: cut)
  then have after: "concat (map absPieceText qs) = opening # slash # subpath @ quote # post"
    by (simp add: front whole slash_def)
  have "qs = absScan (opening # slash # subpath @ quote # post)"
    using absScan_suffix [OF cut] by (simp only: after)
  then have "qs = AbsMatch opening subpath quote # absScan post"
    by (simp only: absScan_Match [OF qt nolt])
  then show "replaceAbsolute cwd filePath knownDirectories content
         = concat (map (absEmit cwd filePath (effectiveRoot cwd filePath) knownDirectories) ps)
           @ (if firstSegment subpath \<in> set knownDirectories
              then quote # relative cwd (dirname filePath)
                             (joinPath [effectiveRoot cwd filePath, subpath]) @ [quote]
              else opening # ''/'' @ subpath @ [quote])
           @ replaceAbsolute cwd filePath knownDirectories post"
    by (simp add: replaceAbsolute_def cut absCallback_def slash_def)
next
  show "effectiveRoot cwd filePath
           = (if startsWith filePath (resolve cwd [cwd, ''src'']) then resolve cwd [cwd, ''src'']
              else cwd)"
    by (simp add: effectiveRoot_def isInSrc_def srcDirOf_def)
qed

theorem absolute_match_rewritten_witness:
  \<open>replaceAbsolute ''/proj'' ''/proj/src/pages/index.vue'' [''components'', ''pages'']
     ''a = "/components/Foo.vue"; b = "/unknown/Foo.vue";''
   = ''a = "../components/Foo.vue"; b = "/unknown/Foo.vue";''\<close>
proof -
  have whole: \<open>''a = "/components/Foo.vue"; b = "/unknown/Foo.vue";''
        = ''a = '' @ CHR 0x22 # ''/'' @ ''components/Foo.vue'' @ CHR 0x22 # ''; b = "/unknown/Foo.vue";''\<close>
    by simp
  have cut: \<open>absScan ''a = "/components/Foo.vue"; b = "/unknown/Foo.vue";''
        = map AbsKeep ''a = '' @ AbsMatch (CHR 0x22) ''components/Foo.vue'' (CHR 0x22)
            # map AbsKeep ''; b = '' @ [AbsMatch (CHR 0x22) ''unknown/Foo.vue'' (CHR 0x22), AbsKeep CHR '';'']\<close>
    by code_simp
  have front: "concat (map absPieceText (map AbsKeep ''a = '')) = ''a = ''"
    by code_simp
  have qt: "isQuote (CHR 0x22)" "isQuote (CHR 0x22)" "\<forall>c \<in> set ''components/Foo.vue''. \<not> isQuote c"
    by code_simp+
  have nolt: "\<not> hasLineTerminator ''components/Foo.vue''"
    by code_simp
  have \<open>concat (map (absEmit ''/proj'' ''/proj/src/pages/index.vue''
                       (effectiveRoot ''/proj'' ''/proj/src/pages/index.vue'') [''components'', ''pages''])
                 (map AbsKeep ''a = ''))
        @ (if firstSegment ''components/Foo.vue'' \<in> set [''components'', ''pages'']
           then CHR 0x22 # relative ''/proj'' (dirname ''/proj/src/pages/index.vue'')
                  (joinPath [effectiveRoot ''/proj'' ''/proj/src/pages/index.vue'', ''components/Foo.vue'']) @ [CHR 0x22]
           else CHR 0x22 # ''/'' @ ''components/Foo.vue'' @ [CHR 0x22])
        @ replaceAbsolute ''/proj'' ''/proj/src/pages/index.vue'' [''components'', ''pages'']
            ''; b = "/unknown/Foo.vue";''
       = ''a = "../components/Foo.vue"; b = "/unknown/Foo.vue";''\<close>
    by code_simp
  with absolute_match_rewritten [OF whole cut [unfolded append_Cons [symmetric]] front qt nolt,
      of "''/proj''" "''/proj/src/pages/index.vue''" "[''components'', ''pages'']"]
  show ?thesis by simp
qed

text \<open>
  Claim C4 as it is written fails where an earlier match has taken the opening quote: in
  this line the match begins at the quote that closes \<open>a.png\<close> and ends at the quote that
  opens the second specifier, whose first segment is a known directory.
\<close>

theorem absolute_match_counterexample:
  \<open>replaceAbsolute ''/proj'' ''/proj/src/pages/index.vue'' [''assets'']
     ''<img src="a.png"/><img src="/assets/b.png"/>''
   = ''<img src="a.png"/><img src="/assets/b.png"/>''
   \<and> firstSegment ''assets/b.png'' \<in> set [''assets'']\<close>
  by code_simp

section \<open>A second run\<close>

lemma replaceAlias_fixed:
  assumes "\<forall>p \<in> set (aliasScan t False content). aliasEmit cwd filePath targetPath p = pieceText t p"
  shows "replaceAlias cwd filePath (t, targetPath) content = content"
proof -
  have "map (aliasEmit cwd filePath targetPath) (aliasScan t False content)
        = map (pieceText t) (aliasScan t False content)"
    using assms by (intro map_cong) auto
  then show ?thesis
    unfolding replaceAlias_def prod.case by (simp only: aliasScan_text)
qed

lemma replaceAllAliases_fixed:
  assumes "\<forall>(t, targetPath) \<in> set entries.
             \<forall>p \<in> set (aliasScan t False content). aliasEmit cwd filePath targetPath p = pieceText t p"
  shows "replaceAllAliases cwd filePath entries content = content"
  using assms unfolding replaceAllAliases_def
proof (induction entries)
  case Nil
  show ?case by simp
next
  case (Cons entry entries)
  obtain t targetPath where entry: "entry = (t, targetPath)" by (cases entry)
  have "replaceAlias cwd filePath entry content = content"
    unfolding entry using Cons.prems by (intro replaceAlias_fixed) (simp add: entry)
  with Cons show ?case by simp
qed

lemma replaceAbsolute_fixed:
  assumes "\<forall>p \<in> set (absScan content).
             absEmit cwd filePath (effectiveRoot cwd filePath) knownDirectories p = absPieceText p"
  shows "replaceAbsolute cwd filePath knownDirectories content = content"
proof -
  have "map (absEmit cwd filePath (effectiveRoot cwd filePath) knownDirectories) (absScan content)
        = map absPieceText (absScan content)"
    using assms by (intro map_cong) auto
  then show ?thesis
    unfolding replaceAbsolute_def by (simp only: absScan_text)
qed

text \<open>
  Claim C2, as far as it holds. A text stays as it is under the full rewrite when every
  match that an alias pattern finds in it is replaced by its own characters (in
  particular when no alias pattern matches) and, in absolute-path mode, every match of the
  absolute pattern is replaced by its own characters (in particular when its first segment
  is not a known directory). A second run therefore changes nothing where the output of
  the first run is such a text.
\<close>

theorem second_run_unchanged:
  assumes "\<forall>(t, targetPath) \<in> set entries.
             \<forall>p \<in> set (aliasScan t False out). aliasEmit cwd filePath targetPath p = pieceText t p"
    and "shouldReplaceAbsolutePaths \<longrightarrow>
           (\<forall>p \<in> set (absScan out).
              absEmit cwd filePath (effectiveRoot cwd filePath) knownDirectories p = absPieceText p)"
  shows "rewriteContent cwd shouldReplaceAbsolutePaths knownDirectories entries filePath out = out"
  using assms
  by (simp add: rewriteContent_def replaceAllAliases_fixed replaceAbsolute_fixed)

theorem second_run_unchanged_witness:
  "rewriteContent ''/proj'' True [''components'', ''utils''] (defaultAliases ''/proj/src'' ''/proj'')
     ''/proj/src/components/A.vue''
     (rewriteContent ''/proj'' True [''components'', ''utils''] (defaultAliases ''/proj/src'' ''/proj'')
        ''/proj/src/components/A.vue'' ''import X from '~/utils/x';'')
   = ''import X from '../utils/x';''"
proof -
  have first: "rewriteContent ''/proj'' True [''components'', ''utils''] (defaultAliases ''/proj/src'' ''/proj'')
        ''/proj/src/components/A.vue'' ''import X from '~/utils/x';''
      = ''import X from '../utils/x';''"
    by code_simp
  have a: "\<forall>(t, targetPath) \<in> set (defaultAliases ''/proj/src'' ''/proj'').
             \<forall>p \<in> set (aliasScan t False ''import X from '../utils/x';'').
               aliasEmit ''/proj'' ''/proj/src/components/A.vue'' targetPath p = pieceText t p"
    by code_simp
  have b: "True \<longrightarrow>
           (\<forall>p \<in> set (absScan ''import X from '../utils/x';'').
              absEmit ''/proj'' ''/proj/src/components/A.vue''
                (effectiveRoot ''/proj'' ''/proj/src/components/A.vue'') [''components'', ''utils''] p
              = absPieceText p)"
    by code_simp
  from second_run_unchanged [OF a b] show ?thesis
    by (simp only: first)
qed

text \<open>
  Claim C2 as it is written fails. With the alias stage alone, the path written by the
  pass for \<open>public\<close> begins with \<open>assets/\<close>, which the pass for \<open>assets\<close> rewrites in the
  second run. With the absolute-path stage and a configuration whose source directory is
  the project root, the path written by the absolute-path stage begins with \<open>assets/\<close> too.
\<close>

theorem second_run_counterexample:
  \<open>rewriteContent ''/proj'' False [] (defaultAliases ''/proj/src'' ''/proj'') ''/proj/src/public/a.js''
     ''import x from 'public/assets/x';''
   = ''import x from 'assets/x';''
   \<and> rewriteContent ''/proj'' False [] (defaultAliases ''/proj/src'' ''/proj'') ''/proj/src/public/a.js''
     ''import x from 'assets/x';''
   = ''import x from '../assets/x';''
   \<and> rewriteContent ''/proj'' True [''assets'', ''src''] (defaultAliases ''/proj'' ''/proj'') ''/proj/src/a.js''
     ''x = "/assets/x.png";''
   = ''x = "assets/x.png";''
   \<and> rewriteContent ''/proj'' True [''assets'', ''src''] (defaultAliases ''/proj'' ''/proj'') ''/proj/src/a.js''
     ''x = "assets/x.png";''
   = ''x = "../assets/x.png";''\<close>
  by code_simp

section \<open>Properties of the alias table\<close>

lemma replace_fst:
  "map fst (map (\<lambda>(k, v). if k = a then (a, b) else (k, v)) obj) = map fst obj"
proof -
  have "fst ((\<lambda>(k, v). if k = a then (a, b) else (k, v)) x) = fst x" for x :: "'a \<times> 'b"
    by (cases x) simp
  then show ?thesis
    by (simp add: comp_def)
qed

lemma setProperty_distinct:
  "distinct (map fst obj) \<Longrightarrow> distinct (map fst (setProperty obj (a, b)))"
  unfolding setProperty_def fst_conv
  by (simp only: replace_fst split: if_split) auto


lemma map_of_replace:
  "map_of (map (\<lambda>(k, v). if k = a then (a, b) else (k, v)) obj) x =
     (if x = a \<and> map_of obj a \<noteq> None then Some b else map_of obj x)"
proof (induction obj)
  case Nil
  show ?case by simp
next
  case (Cons kv obj)
  obtain k v where kv: "kv = (k, v)" by (cases kv)
  show ?case
    using Cons by (cases "k = a") (auto simp: kv)
qed

lemma setProperty_map_of:
  "map_of (setProperty obj (k, v)) x = (if x = k then Some v else map_of obj x)"
proof (cases "k \<in> fst ` set obj")
  case True
  then have "map_of obj k \<noteq> None"
    by (simp add: map_of_eq_None_iff)
  with True show ?thesis
    by (simp add: setProperty_def map_of_replace)
next
  case False
  then have "map_of obj k = None"
    by (simp add: map_of_eq_None_iff)
  with False show ?thesis
    by (auto simp: setProperty_def map_add_def split: option.splits)
qed

lemma foldl_setProperty_distinct:
  "distinct (map fst obj) \<Longrightarrow> distinct (map fst (foldl setProperty obj es))"
proof (induction es arbitrary: obj)
  case Nil
  then show ?case by simp
next
  case (Cons kv es)
  obtain k v where kv: "kv = (k, v)" by (cases kv)
  have "distinct (map fst (setProperty obj (k, v)))"
    using Cons.prems by (rule setProperty_distinct)
  then show ?case
    unfolding kv foldl_Cons by (rule Cons.IH)
qed

lemma foldl_setProperty_map_of:
  "distinct (map fst es) \<Longrightarrow>
     map_of (foldl setProperty obj es) x = (case map_of es x of None \<Rightarrow> map_of obj x | Some v \<Rightarrow> Some v)"
proof (induction es arbitrary: obj)
  case Nil
  show ?case by simp
next
  case (Cons kv es)
  obtain k v where kv: "kv = (k, v)" by (cases kv)
  from Cons.prems have k: "map_of es k = None"
    by (simp add: kv map_of_eq_None_iff)
  from Cons.prems have "distinct (map fst es)"
    by simp
  then have "map_of (foldl setProperty (setProperty obj (k, v)) es) x
             = (case map_of es x of None \<Rightarrow> map_of (setProperty obj (k, v)) x | Some w \<Rightarrow> Some w)"
    by (rule Cons.IH)
  then show ?case
    unfolding kv foldl_Cons using k by (simp add: setProperty_map_of split: option.splits)
qed


lemma ownEntries_set: "set (ownEntries obj) = set obj"
  unfolding ownEntries_def by auto

lemma ownEntries_distinct:
  assumes "distinct (map fst obj)"
  shows "distinct (map fst (ownEntries obj))"
proof -
  have obj: "distinct obj" and inj: "inj_on fst (set obj)"
    using assms by (simp_all add: distinct_map)
  have "distinct (ownEntries obj)"
    unfolding ownEntries_def using obj by auto
  moreover have "inj_on fst (set (ownEntries obj))"
    using inj by (simp only: ownEntries_set)
  ultimately show ?thesis
    by (simp add: distinct_map)
qed

lemma ownEntries_map_of:
  assumes "distinct (map fst obj)"
  shows "map_of (ownEntries obj) = map_of obj"
proof -
  have "distinct (map fst (ownEntries obj))"
    using assms by (rule ownEntries_distinct)
  then show ?thesis
    using assms ownEntries_set [of obj] by (simp only: map_of_inject_set)
qed

lemma spread_distinct: "distinct (map fst (spread a b))"
  unfolding spread_def by (intro foldl_setProperty_distinct) simp

lemma spread_map_of:
  assumes "distinct (map fst a)" "distinct (map fst b)"
  shows "map_of (spread a b) = map_of a ++ map_of b"
proof
  fix x
  have "map_of (foldl setProperty [] (ownEntries a)) x = map_of a x"
    using assms(1)
    by (simp add: foldl_setProperty_map_of ownEntries_distinct ownEntries_map_of split: option.splits)
  then show "map_of (spread a b) x = (map_of a ++ map_of b) x"
    using assms(2)
    by (simp add: spread_def foldl_setProperty_map_of ownEntries_distinct ownEntries_map_of
                  map_add_def split: option.splits)
qed

lemma defaultAliases_distinct: "distinct (map fst (defaultAliases s r))"
  by (simp add: defaultAliases_def)

text \<open>
  Claim C6. When the provider has returned a configuration whose source directory
  resolves to \<open>sourceDir\<close> and whose root directory resolves to \<open>rootDir\<close>, the table
  exists (a token that is both a default and a user alias raises nothing), each token
  occurs in it once, and looking a token up gives the user's directory if the user
  declared the token and the default's otherwise; enumeration does not change that.
\<close>

theorem alias_table_defaults_overlaid:
  assumes "provider = Inr nuxtConfig"
    and "resolvedSrcDir cwd nuxtConfig = Inr sourceDir"
    and "rootDir = resolvedRootDir cwd nuxtConfig"
    and "userAliases = (case configAlias nuxtConfig of None \<Rightarrow> [] | Some u \<Rightarrow> u)"
    and "distinct (map fst userAliases)"
  shows "\<exists>table. getAliasesWithPaths cwd provider = Inr table
           \<and> distinct (map fst table)
           \<and> map_of table
             = map_of [(''~'', sourceDir), (''@'', sourceDir), (''~~'', rootDir), (''@@'', rootDir),
                       (''assets'', joinPath [sourceDir, ''assets'']),
                       (''public'', joinPath [sourceDir, ''public''])]
               ++ map_of userAliases
           \<and> map_of (ownEntries table) = map_of table"
proof -
  let ?table = "spread (defaultAliases sourceDir rootDir) userAliases"
  have "getAliasesWithPaths cwd provider = Inr ?table"
    using assms(1-4) by (simp add: getAliasesWithPaths_def)
  moreover have "distinct (map fst ?table)"
    by (rule spread_distinct)
  moreover have "map_of ?table = map_of (defaultAliases sourceDir rootDir) ++ map_of userAliases"
    using assms(5) by (intro spread_map_of defaultAliases_distinct)
  moreover have "map_of (ownEntries ?table) = map_of ?table"
    using \<open>distinct (map fst ?table)\<close> by (rule ownEntries_map_of)
  ultimately show ?thesis
    by (simp add: defaultAliases_def)
qed

theorem alias_table_defaults_overlaid_witness:
  "\<exists>table. getAliasesWithPaths ''/proj''
              (Inr \<lparr>configRootDir = Some ''/proj'', configSrcDir = Some ''src'',
                    configAlias = Some [(''@'', ''/custom/dir''), (''img'', ''/proj/img'')]\<rparr>) = Inr table
     \<and> map_of table ''@'' = Some ''/custom/dir''
     \<and> map_of table ''~'' = Some ''/proj/src''
     \<and> map_of table ''assets'' = Some ''/proj/src/assets''
     \<and> map_of table ''img'' = Some ''/proj/img''"
proof -
  let ?cfg = "\<lparr>configRootDir = Some ''/proj'', configSrcDir = Some ''src'',
                    configAlias = Some [(''@'', ''/custom/dir''), (''img'', ''/proj/img'')]\<rparr>"
  have src: "resolvedSrcDir ''/proj'' ?cfg = Inr ''/proj/src''"
    by code_simp
  have root: "''/proj'' = resolvedRootDir ''/proj'' ?cfg"
    by code_simp
  have user: "[(''@'', ''/custom/dir''), (''img'', ''/proj/img'')]
               = (case configAlias ?cfg of None \<Rightarrow> [] | Some u \<Rightarrow> u)"
    by simp
  have d: "distinct (map fst [(''@'', ''/custom/dir''), (''img'', ''/proj/img'')])"
    by simp
  have j: "joinPath [''/proj/src'', ''assets''] = ''/proj/src/assets''"
    by code_simp
  from alias_table_defaults_overlaid [OF refl src root user d]
  obtain table where "getAliasesWithPaths ''/proj'' (Inr ?cfg) = Inr table"
    and "map_of table
         = map_of [(''~'', ''/proj/src''), (''@'', ''/proj/src''), (''~~'', ''/proj''), (''@@'', ''/proj''),
                   (''assets'', joinPath [''/proj/src'', ''assets'']),
                   (''public'', joinPath [''/proj/src'', ''public''])]
           ++ map_of [(''@'', ''/custom/dir''), (''img'', ''/proj/img'')]"
    by blast
  then show ?thesis
    by (simp add: j)
qed

section \<open>The order of the passes\<close>

text \<open>
  Claim C5 fails on the code. The table lists \<open>~\<close> before \<open>~~\<close>, and the pattern for \<open>~\<close>
  only rejects a slash in front of it, so it matches the second tilde of \<open>~~/x\<close>: the
  specifier loses its one chance to be resolved against the root directory. With \<open>~~\<close>
  processed first the same text is resolved as the table says.
\<close>

theorem alias_order_changes_result:
  "replaceAllAliases ''/proj'' ''/proj/src/a.js'' (defaultAliases ''/proj/src'' ''/proj'')
     ''import X from '~~/x';''
   = ''import X from '~x';''
   \<and> replaceAllAliases ''/proj'' ''/proj/src/a.js'' (rev (defaultAliases ''/proj/src'' ''/proj''))
     ''import X from '~~/x';''
   = ''import X from '../x';''
   \<and> ownEntries (spread (defaultAliases ''/proj/src'' ''/proj'') [])
     = defaultAliases ''/proj/src'' ''/proj''"
  by code_simp

section \<open>Properties of the tree walker\<close>

lemma processFile_write:
  "WriteFile p w \<in> set (processFile e aliases filePath content) \<longleftrightarrow>
     p = filePath \<and> hasExtension filePath
     \<and> w = rewriteContent (projectRoot e) (replaceAbsoluteFlag e) (knownDirs e)
              (ownEntries aliases) filePath content
     \<and> w \<noteq> content"
  by (auto simp: processFile_def Let_def)

lemma processFile_read:
  "ReadFile p \<in> set (processFile e aliases filePath content) \<longleftrightarrow>
     p = filePath \<and> hasExtension filePath"
  by (auto simp: processFile_def Let_def)

lemma processFile_other:
  "LoadConfig \<notin> set (processFile e aliases filePath content)"
  "\<forall>ev \<in> set (processFile e aliases filePath content). \<not> isFinal ev"
  by (auto simp: processFile_def Let_def)

lemma visitEntry_write:
  "WriteFile p w \<in> set (visitEntry e aliases dir entry) \<longleftrightarrow>
     (\<exists>name content. entry = (name, File content) \<and> p = joinPath [dir, name]
        \<and> hasExtension p
        \<and> w = rewriteContent (projectRoot e) (replaceAbsoluteFlag e) (knownDirs e)
                 (ownEntries aliases) p content
        \<and> w \<noteq> content)"
proof -
  obtain name n where entry: "entry = (name, n)" by (cases entry)
  show ?thesis
  proof (cases n)
    case (File content)
    then show ?thesis
      unfolding entry visitEntry_def by (simp add: processFile_write) blast
  next
    case (Dir x)
    then show ?thesis
      unfolding entry visitEntry_def by simp
  qed
qed

lemma visit_write:
  "WriteFile p w \<in> set (concat (map (visitEntry e aliases dir) entries)) \<longleftrightarrow>
     (\<exists>name content. (name, File content) \<in> set entries \<and> p = joinPath [dir, name]
        \<and> hasExtension p
        \<and> w = rewriteContent (projectRoot e) (replaceAbsoluteFlag e) (knownDirs e)
                 (ownEntries aliases) p content
        \<and> w \<noteq> content)"
  (is "?L \<longleftrightarrow> ?R")
proof
  assume ?L
  then obtain entry where "entry \<in> set entries"
    and "WriteFile p w \<in> set (visitEntry e aliases dir entry)"
    by auto
  then show ?R
    unfolding visitEntry_write by blast
next
  assume ?R
  then obtain name content where mem: "(name, File content) \<in> set entries"
    and rest: "p = joinPath [dir, name]" "hasExtension p"
      "w = rewriteContent (projectRoot e) (replaceAbsoluteFlag e) (knownDirs e)
                 (ownEntries aliases) p content" "w \<noteq> content"
    by blast
  from rest have "WriteFile p w \<in> set (visitEntry e aliases dir (name, File content))"
    unfolding visitEntry_write by blast
  with mem show ?L
    by (auto intro!: bexI [of _ "(name, File content)"])
qed

lemma visitEntry_read:
  "ReadFile p \<in> set (visitEntry e aliases dir entry) \<longleftrightarrow>
     (\<exists>name content. entry = (name, File content) \<and> p = joinPath [dir, name] \<and> hasExtension p)"
proof -
  obtain name n where entry: "entry = (name, n)" by (cases entry)
  show ?thesis
  proof (cases n)
    case (File content)
    then show ?thesis
      unfolding entry visitEntry_def by (simp add: processFile_read) blast
  next
    case (Dir x)
    then show ?thesis
      unfolding entry visitEntry_def by simp
  qed
qed

lemma visit_read:
  "ReadFile p \<in> set (concat (map (visitEntry e aliases dir) entries)) \<Longrightarrow>
     \<exists>name content. (name, File content) \<in> set entries \<and> p = joinPath [dir, name]"
proof -
  assume "ReadFile p \<in> set (concat (map (visitEntry e aliases dir) entries))"
  then obtain entry where "entry \<in> set entries"
    and "ReadFile p \<in> set (visitEntry e aliases dir entry)"
    by auto
  then show ?thesis
    unfolding visitEntry_read by blast
qed

lemma visitEntry_not_final: "ev \<in> set (visitEntry e aliases dir entry) \<Longrightarrow> \<not> isFinal ev"
proof -
  assume ev: "ev \<in> set (visitEntry e aliases dir entry)"
  obtain name n where entry: "entry = (name, n)" by (cases entry)
  show ?thesis
  proof (cases n)
    case (File content)
    with ev entry have "ev \<in> set (processFile e aliases (joinPath [dir, name]) content)"
      by (simp add: visitEntry_def)
    then show ?thesis
      using processFile_other(2) by blast
  next
    case (Dir x)
    with ev entry show ?thesis
      by (simp add: visitEntry_def)
  qed
qed

lemma visit_not_final:
  "ev \<in> set (concat (map (visitEntry e aliases dir) entries)) \<Longrightarrow> \<not> isFinal ev"
proof -
  assume "ev \<in> set (concat (map (visitEntry e aliases dir) entries))"
  then obtain entry where "ev \<in> set (visitEntry e aliases dir entry)"
    by auto
  then show ?thesis
    by (rule visitEntry_not_final)
qed

lemma count_list_append: "count_list (xs @ ys) a = count_list xs a + count_list ys a"
  by (induction xs) simp_all

lemma visit_count:
  "count_list (concat (map (visitEntry e aliases dir) entries)) LoadConfig
     = length (startedCalls dir entries)"
proof (induction entries)
  case Nil
  show ?case by (simp add: startedCalls_def)
next
  case (Cons entry entries)
  obtain name n where entry: "entry = (name, n)" by (cases entry)
  have one: "count_list (visitEntry e aliases dir entry) LoadConfig = (if isDirectory n then 1 else 0)"
  proof (cases n)
    case (File content)
    have "count_list (processFile e aliases (joinPath [dir, name]) content) LoadConfig = 0"
      using processFile_other(1) [of e aliases "joinPath [dir, name]" content]
      by (simp add: count_list_0_iff)
    with File show ?thesis
      by (simp add: entry visitEntry_def isDirectory_def)
  next
    case (Dir x)
    then show ?thesis
      by (simp add: entry visitEntry_def isDirectory_def)
  qed
  have "length (startedCalls dir (entry # entries))
        = (if isDirectory n then 1 else 0) + length (startedCalls dir entries)"
    by (simp add: startedCalls_def entry)
  with Cons one show ?case
    by (simp add: count_list_append)
qed

text \<open>The files below a directory: its own, and those below its subdirectories.\<close>

lemma startedCalls_iff:
  "(d, n) \<in> set (startedCalls dir entries) \<longleftrightarrow>
     (\<exists>name. (name, n) \<in> set entries \<and> isDirectory n \<and> d = joinPath [dir, name])"
  unfolding startedCalls_def by auto

lemma filesUnder_own:
  assumes "(name, File content) \<in> set entries"
  shows "(joinPath [dir, name], content) \<in> set (filesUnder dir (Dir entries))"
proof -
  have "(joinPath [dir, name], content) \<in> set (case (name, File content) of (name, n) \<Rightarrow> (case n of
                       Dir _ \<Rightarrow> filesUnder (joinPath [dir, name]) n
                     | File content \<Rightarrow> [(joinPath [dir, name], content)]))"
    by simp
  with assms show ?thesis
    unfolding filesUnder.simps set_concat set_map by blast
qed

lemma filesUnder_started:
  assumes "(d, n) \<in> set (startedCalls dir entries)" and "x \<in> set (filesUnder d n)"
  shows "x \<in> set (filesUnder dir (Dir entries))"
proof -
  from assms(1) obtain name where mem: "(name, n) \<in> set entries"
    and n: "isDirectory n" and d: "d = joinPath [dir, name]"
    unfolding startedCalls_iff by blast
  from n obtain sub where sub: "n = Dir sub"
    by (cases n) (simp_all add: isDirectory_def)
  have "x \<in> set (case (name, n) of (name, n) \<Rightarrow> (case n of
                       Dir _ \<Rightarrow> filesUnder (joinPath [dir, name]) n
                     | File content \<Rightarrow> [(joinPath [dir, name], content)]))"
    using assms(2) unfolding d sub by simp
  with mem show ?thesis
    unfolding filesUnder.simps(2) [of dir entries] set_concat set_map by blast
qed

lemma filesUnder_cases:
  assumes "x \<in> set (filesUnder dir (Dir entries))"
  shows "(\<exists>name content. (name, File content) \<in> set entries \<and> x = (joinPath [dir, name], content))
         \<or> (\<exists>d n. (d, n) \<in> set (startedCalls dir entries) \<and> x \<in> set (filesUnder d n))"
proof -
  from assms obtain entry where mem: "entry \<in> set entries"
    and x: "x \<in> set (case entry of (name, n) \<Rightarrow> (case n of
                       Dir _ \<Rightarrow> filesUnder (joinPath [dir, name]) n
                     | File content \<Rightarrow> [(joinPath [dir, name], content)]))"
    unfolding filesUnder.simps(2) [of dir entries] set_concat set_map by blast
  obtain name n where entry: "entry = (name, n)" by (cases entry)
  show ?thesis
  proof (cases n)
    case (File content)
    with x entry have "x = (joinPath [dir, name], content)" by simp
    with mem entry File show ?thesis by blast
  next
    case (Dir sub)
    with x entry have "x \<in> set (filesUnder (joinPath [dir, name]) n)" by simp
    moreover have "(joinPath [dir, name], n) \<in> set (startedCalls dir entries)"
      unfolding startedCalls_iff using mem entry Dir by (auto simp: isDirectory_def)
    ultimately show ?thesis by blast
  qed
qed

lemma callsBelow_Nil: "callsBelow [] = 0"
  by (simp add: callsBelow_def)

lemma callsBelow_step:
  "callsBelow (pending @ startedCalls dir entries) + 1 = callsBelow ((dir, Dir entries) # pending)"
  by (simp add: callsBelow_def startedCalls_count)

lemma callsBelow_single: "callsBelow [(dir, n)] = countDirectories n"
  by (simp add: callsBelow_def)

lemma startedCalls_directories:
  assumes "x \<in> set (startedCalls dir entries)"
  shows "isDirectory (snd x)"
proof -
  obtain d n where x: "x = (d, n)" by (cases x)
  from assms [unfolded x startedCalls_iff] x show ?thesis by auto
qed

lemma resumeCalls_Dir:
  assumes "getAliasesWithPaths (projectRoot e) (configOutcome e k) = Inr aliases"
  shows "resumeCalls e k ((dir, Dir entries) # pending)
         = ReadDir dir # concat (map (visitEntry e aliases dir) entries)
           @ resumeCalls e (Suc k) (pending @ startedCalls dir entries)"
  using assms by simp

lemma resumeCalls_fails:
  assumes "getAliasesWithPaths (projectRoot e) (configOutcome e k) = Inl err"
  shows "resumeCalls e k ((dir, n) # pending)
         = [ConsoleError ''Error loading Nuxt configuration:'' (Some err), Exit 1]"
  using assms by (cases n) simp_all

text \<open>While every load builds a table, the calls go on to the end.\<close>

lemma resume_not_final:
  assumes "\<forall>x \<in> set pending. isDirectory (snd x)"
    and "\<forall>j. k \<le> j \<and> j < k + callsBelow pending \<longrightarrow>
           (\<exists>aliases. getAliasesWithPaths (projectRoot e) (configOutcome e j) = Inr aliases)"
  shows "\<forall>ev \<in> set (resumeCalls e k pending). \<not> isFinal ev"
  using assms
proof (induction e k pending rule: resumeCalls.induct)
  case (1 e k)
  show ?case by simp
next
  case (2 e k dir content pending)
  from "2.prems"(1) show ?case by (simp add: isDirectory_def)
next
  case (3 e k dir entries pending)
  have pos: "k < k + callsBelow ((dir, Dir entries) # pending)"
    using callsBelow_step [of pending dir entries] by simp
  with "3.prems"(2) obtain aliases
    where ok: "getAliasesWithPaths (projectRoot e) (configOutcome e k) = Inr aliases"
    by blast
  have dirs: "\<forall>x \<in> set (pending @ startedCalls dir entries). isDirectory (snd x)"
    using "3.prems"(1) startedCalls_directories by auto
  have range: "\<forall>j. Suc k \<le> j \<and> j < Suc k + callsBelow (pending @ startedCalls dir entries) \<longrightarrow>
           (\<exists>aliases. getAliasesWithPaths (projectRoot e) (configOutcome e j) = Inr aliases)"
  proof (intro allI impI)
    fix j
    assume "Suc k \<le> j \<and> j < Suc k + callsBelow (pending @ startedCalls dir entries)"
    then have "k \<le> j \<and> j < k + callsBelow ((dir, Dir entries) # pending)"
      using callsBelow_step [of pending dir entries] by simp
    with "3.prems"(2) show "\<exists>aliases. getAliasesWithPaths (projectRoot e) (configOutcome e j) = Inr aliases"
      by blast
  qed
  have rest: "\<forall>ev \<in> set (resumeCalls e (Suc k) (pending @ startedCalls dir entries)). \<not> isFinal ev"
    using "3.IH" [OF ok dirs range] .
  show ?case
  proof
    fix ev
    assume "ev \<in> set (resumeCalls e k ((dir, Dir entries) # pending))"
    then have "ev = ReadDir dir \<or> ev \<in> set (concat (map (visitEntry e aliases dir) entries))
               \<or> ev \<in> set (resumeCalls e (Suc k) (pending @ startedCalls dir entries))"
      unfolding resumeCalls_Dir [OF ok] by (simp only: set_simps set_append Un_iff insert_iff)
    then show "\<not> isFinal ev"
    proof (elim disjE)
      assume "ev = ReadDir dir"
      then show ?thesis by simp
    next
      assume "ev \<in> set (concat (map (visitEntry e aliases dir) entries))"
      then show ?thesis by (rule visit_not_final)
    next
      assume "ev \<in> set (resumeCalls e (Suc k) (pending @ startedCalls dir entries))"
      with rest show ?thesis by blast
    qed
  qed
qed

lemma range_step:
  assumes "\<forall>j. k \<le> j \<and> j < k + callsBelow ((dir, Dir entries) # pending) \<longrightarrow> P j"
  shows "P k"
    and "\<forall>j. Suc k \<le> j \<and> j < Suc k + callsBelow (pending @ startedCalls dir entries) \<longrightarrow> P j"
proof -
  have "k \<le> k \<and> k < k + callsBelow ((dir, Dir entries) # pending)"
    using callsBelow_step [of pending dir entries] by simp
  with assms show "P k" by blast
  show "\<forall>j. Suc k \<le> j \<and> j < Suc k + callsBelow (pending @ startedCalls dir entries) \<longrightarrow> P j"
  proof (intro allI impI)
    fix j
    assume "Suc k \<le> j \<and> j < Suc k + callsBelow (pending @ startedCalls dir entries)"
    then have "k \<le> j \<and> j < k + callsBelow ((dir, Dir entries) # pending)"
      using callsBelow_step [of pending dir entries] by simp
    with assms show "P j" by blast
  qed
qed

lemma pending_directories_step:
  assumes "\<forall>x \<in> set ((dir, Dir entries) # pending). isDirectory (snd x)"
  shows "\<forall>x \<in> set (pending @ startedCalls dir entries). isDirectory (snd x)"
  using assms startedCalls_directories by auto

lemma resumeCalls_Dir_mem:
  assumes "getAliasesWithPaths (projectRoot e) (configOutcome e k) = Inr aliases"
  shows "ev \<in> set (resumeCalls e k ((dir, Dir entries) # pending)) \<longleftrightarrow>
           ev = ReadDir dir \<or> ev \<in> set (concat (map (visitEntry e aliases dir) entries))
           \<or> ev \<in> set (resumeCalls e (Suc k) (pending @ startedCalls dir entries))"
  unfolding resumeCalls_Dir [OF assms] by (simp only: set_simps set_append Un_iff insert_iff)

text \<open>The loads of a walk in which every load builds a table.\<close>

lemma resume_count:
  assumes "\<forall>x \<in> set pending. isDirectory (snd x)"
    and "\<forall>j. k \<le> j \<and> j < k + callsBelow pending \<longrightarrow>
           (\<exists>aliases. getAliasesWithPaths (projectRoot e) (configOutcome e j) = Inr aliases)"
  shows "count_list (resumeCalls e k pending) LoadConfig + length pending = callsBelow pending"
  using assms
proof (induction e k pending rule: resumeCalls.induct)
  case (1 e k)
  show ?case by (simp add: callsBelow_Nil)
next
  case (2 e k dir content pending)
  from "2.prems"(1) show ?case by (simp add: isDirectory_def)
next
  case (3 e k dir entries pending)
  from range_step(1) [OF "3.prems"(2)] obtain aliases
    where ok: "getAliasesWithPaths (projectRoot e) (configOutcome e k) = Inr aliases"
    by blast
  note rest = "3.IH" [OF ok pending_directories_step [OF "3.prems"(1)] range_step(2) [OF "3.prems"(2)]]
  have "count_list (resumeCalls e k ((dir, Dir entries) # pending)) LoadConfig
        = length (startedCalls dir entries)
          + count_list (resumeCalls e (Suc k) (pending @ startedCalls dir entries)) LoadConfig"
    unfolding resumeCalls_Dir [OF ok] by (simp add: count_list_append visit_count)
  with rest callsBelow_step [of pending dir entries] show ?case
    by simp
qed

text \<open>What is written and read by the calls that wait.\<close>

lemma resume_write_only:
  assumes "WriteFile p w \<in> set (resumeCalls e k pending)"
  shows "\<exists>j aliases x content. k \<le> j \<and> j < k + callsBelow pending
           \<and> getAliasesWithPaths (projectRoot e) (configOutcome e j) = Inr aliases
           \<and> x \<in> set pending \<and> (p, content) \<in> set (filesUnder (fst x) (snd x))
           \<and> hasExtension p
           \<and> w = rewriteContent (projectRoot e) (replaceAbsoluteFlag e) (knownDirs e)
                    (ownEntries aliases) p content
           \<and> w \<noteq> content"
  using assms
proof (induction e k pending rule: resumeCalls.induct)
  case (1 e k)
  then show ?case by simp
next
  case (2 e k dir content pending)
  then show ?case by (simp split: sum.splits)
next
  case (3 e k dir entries pending)
  show ?case
  proof (cases "getAliasesWithPaths (projectRoot e) (configOutcome e k)")
    case (Inl err)
    with "3.prems" show ?thesis by simp
  next
    case (Inr aliases)
    have step: "callsBelow (pending @ startedCalls dir entries) + 1 = callsBelow ((dir, Dir entries) # pending)"
      by (rule callsBelow_step)
    from "3.prems" have "WriteFile p w \<in> set (concat (map (visitEntry e aliases dir) entries))
        \<or> WriteFile p w \<in> set (resumeCalls e (Suc k) (pending @ startedCalls dir entries))"
      unfolding resumeCalls_Dir_mem [OF Inr] by simp
    then show ?thesis
    proof
      assume "WriteFile p w \<in> set (concat (map (visitEntry e aliases dir) entries))"
      then obtain name content where own: "(name, File content) \<in> set entries" "p = joinPath [dir, name]"
        and rest: "hasExtension p"
          "w = rewriteContent (projectRoot e) (replaceAbsoluteFlag e) (knownDirs e)
                 (ownEntries aliases) p content"
          "w \<noteq> content"
        unfolding visit_write by blast
      have mem: "(p, content) \<in> set (filesUnder (fst (dir, Dir entries)) (snd (dir, Dir entries)))"
        unfolding fst_conv snd_conv own(2) using own(1) by (rule filesUnder_own)
      have k: "k \<le> k \<and> k < k + callsBelow ((dir, Dir entries) # pending)"
        using step by simp
      have x: "(dir, Dir entries) \<in> set ((dir, Dir entries) # pending)"
        by simp
      from k Inr x mem rest show ?thesis
        by blast
    next
      assume "WriteFile p w \<in> set (resumeCalls e (Suc k) (pending @ startedCalls dir entries))"
      from "3.IH" [OF Inr this] obtain j aliases' x content
        where j: "Suc k \<le> j" "j < Suc k + callsBelow (pending @ startedCalls dir entries)"
          and ok: "getAliasesWithPaths (projectRoot e) (configOutcome e j) = Inr aliases'"
          and x: "x \<in> set (pending @ startedCalls dir entries)"
          and mem: "(p, content) \<in> set (filesUnder (fst x) (snd x))"
          and rest: "hasExtension p"
            "w = rewriteContent (projectRoot e) (replaceAbsoluteFlag e) (knownDirs e)
                   (ownEntries aliases') p content"
            "w \<noteq> content"
        by blast
      have j': "k \<le> j \<and> j < k + callsBelow ((dir, Dir entries) # pending)"
        using j step by simp
      have "\<exists>y. y \<in> set ((dir, Dir entries) # pending) \<and> (p, content) \<in> set (filesUnder (fst y) (snd y))"
      proof (cases "x \<in> set pending")
        case True
        with mem show ?thesis by (intro exI [of _ x]) simp
      next
        case False
        with x have "(fst x, snd x) \<in> set (startedCalls dir entries)" by simp
        from filesUnder_started [OF this mem]
        have "(p, content) \<in> set (filesUnder (fst (dir, Dir entries)) (snd (dir, Dir entries)))"
          by simp
        then show ?thesis by (intro exI [of _ "(dir, Dir entries)"]) simp
      qed
      then obtain y where "y \<in> set ((dir, Dir entries) # pending)"
        "(p, content) \<in> set (filesUnder (fst y) (snd y))"
        by blast
      with j' ok rest show ?thesis
        by blast
    qed
  qed
qed

lemma resume_read_only:
  assumes "ReadFile p \<in> set (resumeCalls e k pending)"
  shows "\<exists>x content. x \<in> set pending \<and> (p, content) \<in> set (filesUnder (fst x) (snd x))"
  using assms
proof (induction e k pending rule: resumeCalls.induct)
  case (1 e k)
  then show ?case by simp
next
  case (2 e k dir content pending)
  then show ?case by (simp split: sum.splits)
next
  case (3 e k dir entries pending)
  show ?case
  proof (cases "getAliasesWithPaths (projectRoot e) (configOutcome e k)")
    case (Inl err)
    with "3.prems" show ?thesis by simp
  next
    case (Inr aliases)
    from "3.prems" have "ReadFile p \<in> set (concat (map (visitEntry e aliases dir) entries))
        \<or> ReadFile p \<in> set (resumeCalls e (Suc k) (pending @ startedCalls dir entries))"
      unfolding resumeCalls_Dir_mem [OF Inr] by simp
    then show ?thesis
    proof
      assume "ReadFile p \<in> set (concat (map (visitEntry e aliases dir) entries))"
      from visit_read [OF this] obtain name content
        where own: "(name, File content) \<in> set entries" "p = joinPath [dir, name]"
        by blast
      have "(p, content) \<in> set (filesUnder (fst (dir, Dir entries)) (snd (dir, Dir entries)))"
        unfolding fst_conv snd_conv own(2) using own(1) by (rule filesUnder_own)
      then show ?thesis
        by (intro exI [of _ "(dir, Dir entries)"] exI [of _ content]) simp
    next
      assume "ReadFile p \<in> set (resumeCalls e (Suc k) (pending @ startedCalls dir entries))"
      from "3.IH" [OF Inr this] obtain x content
        where x: "x \<in> set (pending @ startedCalls dir entries)"
          and mem: "(p, content) \<in> set (filesUnder (fst x) (snd x))"
        by blast
      show ?thesis
      proof (cases "x \<in> set pending")
        case True
        with mem show ?thesis by (intro exI [of _ x] exI [of _ content]) simp
      next
        case False
        with x have "(fst x, snd x) \<in> set (startedCalls dir entries)" by simp
        from filesUnder_started [OF this mem]
        have "(p, content) \<in> set (filesUnder (fst (dir, Dir entries)) (snd (dir, Dir entries)))"
          by simp
        then show ?thesis
          by (intro exI [of _ "(dir, Dir entries)"] exI [of _ content]) simp
      qed
    qed
  qed
qed

lemma resume_write_all:
  assumes "\<forall>x \<in> set pending. isDirectory (snd x)"
    and "\<forall>j. k \<le> j \<and> j < k + callsBelow pending \<longrightarrow>
           getAliasesWithPaths (projectRoot e) (configOutcome e j) = Inr aliases"
    and "x \<in> set pending"
    and "(p, content) \<in> set (filesUnder (fst x) (snd x))"
    and "hasExtension p"
    and "w = rewriteContent (projectRoot e) (replaceAbsoluteFlag e) (knownDirs e)
               (ownEntries aliases) p content"
    and "w \<noteq> content"
  shows "WriteFile p w \<in> set (resumeCalls e k pending)"
  using assms
proof (induction e k pending arbitrary: x rule: resumeCalls.induct)
  case (1 e k)
  then show ?case by simp
next
  case (2 e k dir content pending)
  from "2.prems"(1) show ?case by (simp add: isDirectory_def)
next
  case (3 e k dir entries pending)
  note ok = range_step(1) [OF "3.prems"(2)]
  note dirs = pending_directories_step [OF "3.prems"(1)]
  note range = range_step(2) [OF "3.prems"(2)]
  note rest = "3.IH" [OF ok dirs range _ _ "3.prems"(5,6,7)]
  have "x = (dir, Dir entries) \<or> x \<in> set pending"
    using "3.prems"(3) by simp
  then have "WriteFile p w \<in> set (concat (map (visitEntry e aliases dir) entries))
             \<or> WriteFile p w \<in> set (resumeCalls e (Suc k) (pending @ startedCalls dir entries))"
  proof
    assume "x \<in> set pending"
    then have "x \<in> set (pending @ startedCalls dir entries)" by simp
    from rest [OF this "3.prems"(4)] show ?thesis ..
  next
    assume x: "x = (dir, Dir entries)"
    with "3.prems"(4) have "(p, content) \<in> set (filesUnder dir (Dir entries))"
      by (simp only: fst_conv snd_conv)
    from filesUnder_cases [OF this] show ?thesis
    proof (elim disjE exE conjE)
      fix name content'
      assume "(name, File content') \<in> set entries" "(p, content) = (joinPath [dir, name], content')"
      then have "(name, File content) \<in> set entries" "p = joinPath [dir, name]"
        by simp_all
      with "3.prems"(5,6,7) have "WriteFile p w \<in> set (concat (map (visitEntry e aliases dir) entries))"
        unfolding visit_write by blast
      then show ?thesis ..
    next
      fix d n
      assume started: "(d, n) \<in> set (startedCalls dir entries)" and mem: "(p, content) \<in> set (filesUnder d n)"
      from started have "(d, n) \<in> set (pending @ startedCalls dir entries)" by simp
      moreover from mem have "(p, content) \<in> set (filesUnder (fst (d, n)) (snd (d, n)))"
        by (simp only: fst_conv snd_conv)
      ultimately show ?thesis
        using rest by blast
    qed
  qed
  then show ?case
    unfolding resumeCalls_Dir_mem [OF ok] by blast
qed

text \<open>A load that fails ends the run; what the calls before it have done stays done.\<close>

lemma resume_fail:
  assumes "\<forall>x \<in> set pending. isDirectory (snd x)"
    and "k \<le> f" and "f < k + callsBelow pending"
    and "\<forall>j. k \<le> j \<and> j < f \<longrightarrow>
           (\<exists>aliases. getAliasesWithPaths (projectRoot e) (configOutcome e j) = Inr aliases)"
    and "getAliasesWithPaths (projectRoot e) (configOutcome e f) = Inl err"
  shows "\<exists>evs. resumeCalls e k pending
                 = evs @ [ConsoleError ''Error loading Nuxt configuration:'' (Some err), Exit 1]
               \<and> (\<forall>ev \<in> set evs. \<not> isFinal ev)"
  using assms
proof (induction e k pending rule: resumeCalls.induct)
  case (1 e k)
  then show ?case by (simp add: callsBelow_Nil)
next
  case (2 e k dir content pending)
  from "2.prems"(1) show ?case by (simp add: isDirectory_def)
next
  case (3 e k dir entries pending)
  show ?case
  proof (cases "f = k")
    case True
    with "3.prems"(5) have "resumeCalls e k ((dir, Dir entries) # pending)
        = [] @ [ConsoleError ''Error loading Nuxt configuration:'' (Some err), Exit 1]"
      by simp
    then show ?thesis by (intro exI [of _ "[]"]) simp
  next
    case False
    with "3.prems"(2) have less: "k < f" by simp
    with "3.prems"(4) obtain aliases
      where ok: "getAliasesWithPaths (projectRoot e) (configOutcome e k) = Inr aliases"
      by blast
    have a: "Suc k \<le> f" using less by simp
    have b: "f < Suc k + callsBelow (pending @ startedCalls dir entries)"
      using "3.prems"(3) callsBelow_step [of pending dir entries] by simp
    have c: "\<forall>j. Suc k \<le> j \<and> j < f \<longrightarrow>
           (\<exists>aliases. getAliasesWithPaths (projectRoot e) (configOutcome e j) = Inr aliases)"
      using "3.prems"(4) by auto
    from "3.IH" [OF ok pending_directories_step [OF "3.prems"(1)] a b c "3.prems"(5)]
    obtain evs where evs: "resumeCalls e (Suc k) (pending @ startedCalls dir entries)
                 = evs @ [ConsoleError ''Error loading Nuxt configuration:'' (Some err), Exit 1]"
      and nf: "\<forall>ev \<in> set evs. \<not> isFinal ev"
      by blast
    let ?evs = "ReadDir dir # concat (map (visitEntry e aliases dir) entries) @ evs"
    have "resumeCalls e k ((dir, Dir entries) # pending)
          = ?evs @ [ConsoleError ''Error loading Nuxt configuration:'' (Some err), Exit 1]"
      unfolding resumeCalls_Dir [OF ok] evs by simp
    moreover have "\<forall>ev \<in> set ?evs. \<not> isFinal ev"
    proof
      fix ev
      assume "ev \<in> set ?evs"
      then have "ev = ReadDir dir \<or> ev \<in> set (concat (map (visitEntry e aliases dir) entries))
               \<or> ev \<in> set evs"
        by (simp only: set_simps set_append Un_iff insert_iff)
      then show "\<not> isFinal ev"
      proof (elim disjE)
        assume "ev = ReadDir dir"
        then show ?thesis by simp
      next
        assume "ev \<in> set (concat (map (visitEntry e aliases dir) entries))"
        then show ?thesis by (rule visit_not_final)
      next
        assume "ev \<in> set evs"
        with nf show ?thesis by blast
      qed
    qed
    ultimately show ?thesis by blast
  qed
qed

lemma untilFinal_id: "\<forall>ev \<in> set evs. \<not> isFinal ev \<Longrightarrow> untilFinal evs = evs"
  by (induction evs) simp_all

lemma untilFinal_subset: "ev \<in> set (untilFinal evs) \<Longrightarrow> ev \<in> set evs"
  by (induction evs) (auto split: if_splits)

lemma untilFinal_append:
  "\<forall>ev \<in> set xs. \<not> isFinal ev \<Longrightarrow> untilFinal (xs @ ys) = xs @ untilFinal ys"
  by (induction xs) simp_all

lemma exitCode_no_final: "\<forall>ev \<in> set evs. \<not> isFinal ev \<Longrightarrow> exitCode evs = Some 0"
proof -
  assume "\<forall>ev \<in> set evs. \<not> isFinal ev"
  then have "filter isFinal evs = []"
    by (simp add: filter_empty_conv)
  then show ?thesis
    by (simp add: exitCode_def)
qed

lemma exitCode_append:
  assumes "\<forall>ev \<in> set xs. \<not> isFinal ev"
  shows "exitCode (xs @ ys) = exitCode ys"
proof -
  from assms have "filter isFinal xs = []"
    by (simp add: filter_empty_conv)
  then show ?thesis
    by (simp add: exitCode_def)
qed

section \<open>Properties of a run\<close>

lemma getKnownDirectories_Inl:
  "getKnownDirectories projectEntries = Inl err \<longleftrightarrow>
     (\<exists>content. map_of projectEntries ''src'' = Some (File content)) \<and> err = ENOTDIR"
  by (auto simp: getKnownDirectories_def split: option.splits node.splits)

lemma known_if_directory:
  assumes "map_of projectEntries ''src'' = Some (Dir entries)"
  shows "\<exists>known. if flag then getKnownDirectories projectEntries = Inr known else known = []"
  using assms by (cases flag) (simp_all add: getKnownDirectories_def)

lemma known_unless_file:
  assumes "\<not> (flag \<and> (\<exists>c. map_of projectEntries ''src'' = Some (File c)))"
  shows "\<exists>known. if flag then getKnownDirectories projectEntries = Inr known else known = []"
proof (cases flag)
  case False
  then show ?thesis by simp
next
  case True
  show ?thesis
  proof (cases "getKnownDirectories projectEntries")
    case (Inl err)
    then show ?thesis
      using assms True by (simp add: getKnownDirectories_Inl)
  next
    case (Inr known)
    then show ?thesis
      using True by simp
  qed
qed

lemma known_of_directory:
  assumes "map_of projectEntries ''src'' = Some (Dir entries)"
    and "if flag then getKnownDirectories projectEntries = Inr known else known = []"
    and "flag"
  shows "known = uniqueInOrder (getVisibleDirectories projectEntries @ getVisibleDirectories entries)"
    and "knownDirectoriesListed cwd projectEntries = [ReadDir cwd, ReadDir (resolve cwd [cwd, ''src''])]"
  using assms by (simp_all add: getKnownDirectories_def knownDirectoriesListed_def)

lemma main_absent:
  assumes "\<not> existsSync projectEntries ''nuxt.config.ts''" "\<not> existsSync projectEntries ''nuxt.config.js''"
  shows "main cwd args provider projectEntries
         = [ConsoleError ''Error: Nuxt configuration file not found. Please make sure nuxt.config.ts or nuxt.config.js exists in the project root.'' None,
            Exit 1]"
  using assms by (simp add: main_def)

lemma main_known_fails:
  assumes "existsSync projectEntries ''nuxt.config.ts'' \<or> existsSync projectEntries ''nuxt.config.js''"
    and "''--replace-absolute'' \<in> set args"
    and "map_of projectEntries ''src'' = Some (File content)"
  shows "main cwd args provider projectEntries = [ReadDir cwd, Uncaught ENOTDIR]"
proof -
  have "getKnownDirectories projectEntries = Inl ENOTDIR"
    using assms(3) by (simp add: getKnownDirectories_Inl)
  with assms show ?thesis
    by (auto simp: main_def knownDirectoriesListed_def)
qed

text \<open>What comes before the last statement of the script.\<close>

lemma scan_events:
  assumes "ev \<in> set (if flag then knownDirectoriesListed cwd projectEntries @ [ConsoleLog msg (Some known)] else [])"
  shows "\<not> isFinal ev" and "ev \<noteq> LoadConfig" and "ev \<noteq> ReadFile p" and "ev \<noteq> WriteFile p w"
    and "ev \<noteq> ConsoleError msg' err"
  using assms
  by (auto simp: knownDirectoriesListed_def split: if_splits option.splits node.splits)

lemma main_traverse:
  assumes "existsSync projectEntries ''nuxt.config.ts'' \<or> existsSync projectEntries ''nuxt.config.js''"
    and "if ''--replace-absolute'' \<in> set args
         then getKnownDirectories projectEntries = Inr known else known = []"
  shows "main cwd args provider projectEntries
         = (if ''--replace-absolute'' \<in> set args
            then knownDirectoriesListed cwd projectEntries
                 @ [ConsoleLog ''Will replace all absolute paths starting from any of these path segments: ''
                      (Some known)]
            else [])
           @ untilFinal
               (traverse \<lparr>projectRoot = cwd, replaceAbsoluteFlag = (''--replace-absolute'' \<in> set args),
                          knownDirs = known, configOutcome = provider\<rparr> projectEntries)"
proof (cases "''--replace-absolute'' \<in> set args")
  case False
  with assms show ?thesis by (auto simp: main_def)
next
  case True
  let ?scan = "knownDirectoriesListed cwd projectEntries
                 @ [ConsoleLog ''Will replace all absolute paths starting from any of these path segments: ''
                      (Some known)]"
  let ?e = "\<lparr>projectRoot = cwd, replaceAbsoluteFlag = True, knownDirs = known, configOutcome = provider\<rparr>"
  have nf: "\<forall>ev \<in> set ?scan. \<not> isFinal ev"
    using scan_events(1) [of _ True cwd projectEntries] by simp
  from True assms have known: "getKnownDirectories projectEntries = Inr known"
    by simp
  have "main cwd args provider projectEntries = untilFinal (?scan @ traverse ?e projectEntries)"
    using assms(1) True known by (auto simp: main_def)
  also have "\<dots> = ?scan @ untilFinal (traverse ?e projectEntries)"
    using nf by (rule untilFinal_append)
  finally show ?thesis
    using True by simp
qed

lemma traverse_first_fails:
  assumes "getAliasesWithPaths (projectRoot e) (configOutcome e 0) = Inl err"
  shows "traverse e projectEntries
         = [LoadConfig, ConsoleError ''Error loading Nuxt configuration:'' (Some err), Exit 1]"
proof (cases "map_of projectEntries ''src''")
  case None
  with assms show ?thesis by (simp add: traverse_def)
next
  case (Some n)
  with assms show ?thesis by (simp add: traverse_def replaceAliases_def resumeCalls_fails)
qed

lemma traverse_no_directory:
  assumes "getAliasesWithPaths (projectRoot e) (configOutcome e 0) = Inr aliases"
  shows "map_of projectEntries ''src'' = None \<Longrightarrow> traverse e projectEntries = [LoadConfig, Uncaught ENOENT]"
    and "map_of projectEntries ''src'' = Some (File content) \<Longrightarrow>
           traverse e projectEntries = [LoadConfig, Uncaught ENOTDIR]"
  using assms by (simp_all add: traverse_def replaceAliases_def)

lemma traverse_directory:
  "map_of projectEntries ''src'' = Some (Dir entries) \<Longrightarrow>
     traverse e projectEntries = LoadConfig # resumeCalls e 0 [(startDir (projectRoot e), Dir entries)]"
  by (simp add: traverse_def replaceAliases_def)

text \<open>The runs that end before the walk, or whose walk cannot start, write nothing and read nothing.\<close>

lemma main_stops_early:
  assumes "\<not> ((existsSync projectEntries ''nuxt.config.ts'' \<or> existsSync projectEntries ''nuxt.config.js'')
              \<and> (\<exists>aliases. getAliasesWithPaths cwd (provider 0) = Inr aliases)
              \<and> (\<exists>entries. map_of projectEntries ''src'' = Some (Dir entries)))"
  shows "ReadFile p \<notin> set (main cwd args provider projectEntries)"
    and "WriteFile p w \<notin> set (main cwd args provider projectEntries)"
proof -
  let ?m = "main cwd args provider projectEntries"
  have "ReadFile p \<notin> set ?m \<and> WriteFile p w \<notin> set ?m"
  proof (cases "existsSync projectEntries ''nuxt.config.ts'' \<or> existsSync projectEntries ''nuxt.config.js''")
    case False
    then show ?thesis by (simp add: main_absent)
  next
    case present: True
    show ?thesis
    proof (cases "''--replace-absolute'' \<in> set args \<and> (\<exists>c. map_of projectEntries ''src'' = Some (File c))")
      case True
      then obtain c where "''--replace-absolute'' \<in> set args" "map_of projectEntries ''src'' = Some (File c)"
        by blast
      from main_known_fails [OF present this] show ?thesis by simp
    next
      case False
      from known_unless_file [OF False] obtain known
        where known: "if ''--replace-absolute'' \<in> set args
                      then getKnownDirectories projectEntries = Inr known else known = []"
        by blast
      let ?e = "\<lparr>projectRoot = cwd, replaceAbsoluteFlag = (''--replace-absolute'' \<in> set args),
                  knownDirs = known, configOutcome = provider\<rparr>"
      let ?scan = "if ''--replace-absolute'' \<in> set args
            then knownDirectoriesListed cwd projectEntries
                 @ [ConsoleLog ''Will replace all absolute paths starting from any of these path segments: ''
                      (Some known)]
            else []"
      have m: "?m = ?scan @ untilFinal (traverse ?e projectEntries)"
        by (rule main_traverse [OF present known])
      have scan: "ReadFile p \<notin> set ?scan \<and> WriteFile p w \<notin> set ?scan"
        using scan_events(3,4) by blast
      have "\<exists>a b. traverse ?e projectEntries = [LoadConfig, a, b]
                    \<and> (\<forall>q v. a \<noteq> ReadFile q \<and> a \<noteq> WriteFile q v \<and> b \<noteq> ReadFile q \<and> b \<noteq> WriteFile q v)
            \<or> (\<exists>a. traverse ?e projectEntries = [LoadConfig, a] \<and> isFinal a)"
      proof (cases "getAliasesWithPaths cwd (provider 0)")
        case (Inl err)
        then have "getAliasesWithPaths (projectRoot ?e) (configOutcome ?e 0) = Inl err" by simp
        from traverse_first_fails [OF this] show ?thesis by simp
      next
        case (Inr aliases)
        then have ok: "getAliasesWithPaths (projectRoot ?e) (configOutcome ?e 0) = Inr aliases" by simp
        from Inr assms present have nodir: "\<forall>entries. map_of projectEntries ''src'' \<noteq> Some (Dir entries)"
          by blast
        show ?thesis
        proof (cases "map_of projectEntries ''src''")
          case None
          from traverse_no_directory(1) [OF ok None] show ?thesis by simp
        next
          case (Some n)
          with nodir obtain c where "n = File c" by (cases n) simp_all
          with Some have "map_of projectEntries ''src'' = Some (File c)" by simp
          from traverse_no_directory(2) [OF ok this] show ?thesis by simp
        qed
      qed
      then have "ReadFile p \<notin> set (untilFinal (traverse ?e projectEntries))
                 \<and> WriteFile p w \<notin> set (untilFinal (traverse ?e projectEntries))"
        by (elim disjE exE conjE) (simp_all, auto)
      with scan show ?thesis
        unfolding m by (simp only: set_append Un_iff) blast
    qed
  qed
  then show "ReadFile p \<notin> set ?m" and "WriteFile p w \<notin> set ?m"
    by blast+
qed

text \<open>The runs that walk: the configuration file is there and \<open>src\<close> is a directory.\<close>

lemma main_walk:
  assumes "existsSync projectEntries ''nuxt.config.ts'' \<or> existsSync projectEntries ''nuxt.config.js''"
    and "if ''--replace-absolute'' \<in> set args
         then getKnownDirectories projectEntries = Inr known else known = []"
    and "map_of projectEntries ''src'' = Some (Dir entries)"
  shows "main cwd args provider projectEntries
         = (if ''--replace-absolute'' \<in> set args
            then knownDirectoriesListed cwd projectEntries
                 @ [ConsoleLog ''Will replace all absolute paths starting from any of these path segments: ''
                      (Some known)]
            else [])
           @ untilFinal
               (LoadConfig #
                resumeCalls \<lparr>projectRoot = cwd, replaceAbsoluteFlag = (''--replace-absolute'' \<in> set args),
                              knownDirs = known, configOutcome = provider\<rparr>
                  0 [(startDir cwd, Dir entries)])"
  unfolding main_traverse [OF assms(1,2)] traverse_directory [OF assms(3)]
  by (simp only: select_convs)

lemma main_walk_events:
  assumes "existsSync projectEntries ''nuxt.config.ts'' \<or> existsSync projectEntries ''nuxt.config.js''"
    and "if ''--replace-absolute'' \<in> set args
         then getKnownDirectories projectEntries = Inr known else known = []"
    and "map_of projectEntries ''src'' = Some (Dir entries)"
    and "ev \<in> set (main cwd args provider projectEntries)"
    and "ev \<noteq> LoadConfig"
  shows "ev \<in> set (if ''--replace-absolute'' \<in> set args
            then knownDirectoriesListed cwd projectEntries
                 @ [ConsoleLog ''Will replace all absolute paths starting from any of these path segments: ''
                      (Some known)]
            else [])
         \<or> ev \<in> set (resumeCalls \<lparr>projectRoot = cwd, replaceAbsoluteFlag = (''--replace-absolute'' \<in> set args),
                              knownDirs = known, configOutcome = provider\<rparr>
                  0 [(startDir cwd, Dir entries)])"
proof -
  let ?e = "\<lparr>projectRoot = cwd, replaceAbsoluteFlag = (''--replace-absolute'' \<in> set args),
              knownDirs = known, configOutcome = provider\<rparr>"
  let ?scan = "if ''--replace-absolute'' \<in> set args
            then knownDirectoriesListed cwd projectEntries
                 @ [ConsoleLog ''Will replace all absolute paths starting from any of these path segments: ''
                      (Some known)]
            else []"
  from assms(4) have "ev \<in> set ?scan
      \<or> ev \<in> set (untilFinal (LoadConfig # resumeCalls ?e 0 [(startDir cwd, Dir entries)]))"
    unfolding main_walk [OF assms(1,2,3)] by (simp only: set_append Un_iff)
  then show ?thesis
  proof
    assume "ev \<in> set ?scan"
    then show ?thesis ..
  next
    assume "ev \<in> set (untilFinal (LoadConfig # resumeCalls ?e 0 [(startDir cwd, Dir entries)]))"
    then have "ev \<in> set (LoadConfig # resumeCalls ?e 0 [(startDir cwd, Dir entries)])"
      by (rule untilFinal_subset)
    with assms(5) show ?thesis by simp
  qed
qed

lemma main_walk_through:
  assumes "existsSync projectEntries ''nuxt.config.ts'' \<or> existsSync projectEntries ''nuxt.config.js''"
    and "if ''--replace-absolute'' \<in> set args
         then getKnownDirectories projectEntries = Inr known else known = []"
    and "map_of projectEntries ''src'' = Some (Dir entries)"
    and "\<forall>k < countDirectories (Dir entries). \<exists>aliases. getAliasesWithPaths cwd (provider k) = Inr aliases"
  shows "main cwd args provider projectEntries
         = (if ''--replace-absolute'' \<in> set args
            then knownDirectoriesListed cwd projectEntries
                 @ [ConsoleLog ''Will replace all absolute paths starting from any of these path segments: ''
                      (Some known)]
            else [])
           @ LoadConfig #
             resumeCalls \<lparr>projectRoot = cwd, replaceAbsoluteFlag = (''--replace-absolute'' \<in> set args),
                           knownDirs = known, configOutcome = provider\<rparr>
               0 [(startDir cwd, Dir entries)]"
    and "\<forall>ev \<in> set (main cwd args provider projectEntries). \<not> isFinal ev"
proof -
  let ?e = "\<lparr>projectRoot = cwd, replaceAbsoluteFlag = (''--replace-absolute'' \<in> set args),
              knownDirs = known, configOutcome = provider\<rparr>"
  let ?scan = "if ''--replace-absolute'' \<in> set args
            then knownDirectoriesListed cwd projectEntries
                 @ [ConsoleLog ''Will replace all absolute paths starting from any of these path segments: ''
                      (Some known)]
            else []"
  have dirs: "\<forall>x \<in> set [(startDir cwd, Dir entries)]. isDirectory (snd x)"
    by (simp add: isDirectory_def)
  have range: "\<forall>j. 0 \<le> j \<and> j < 0 + callsBelow [(startDir cwd, Dir entries)] \<longrightarrow>
           (\<exists>aliases. getAliasesWithPaths (projectRoot ?e) (configOutcome ?e j) = Inr aliases)"
    using assms(4) by (simp add: callsBelow_single)
  have nf: "\<forall>ev \<in> set (resumeCalls ?e 0 [(startDir cwd, Dir entries)]). \<not> isFinal ev"
    using dirs range by (rule resume_not_final)
  then have nf': "\<forall>ev \<in> set (LoadConfig # resumeCalls ?e 0 [(startDir cwd, Dir entries)]). \<not> isFinal ev"
    by simp
  show m: "main cwd args provider projectEntries
           = ?scan @ LoadConfig # resumeCalls ?e 0 [(startDir cwd, Dir entries)]"
    unfolding main_walk [OF assms(1,2,3)] untilFinal_id [OF nf'] ..
  have "\<forall>ev \<in> set ?scan. \<not> isFinal ev"
    using scan_events(1) by blast
  with nf' show "\<forall>ev \<in> set (main cwd args provider projectEntries). \<not> isFinal ev"
    unfolding m by (simp only: set_append Un_iff) blast
qed

lemma main_write_only:
  assumes "WriteFile filePath written \<in> set (main cwd args provider projectEntries)"
  shows "(existsSync projectEntries ''nuxt.config.ts'' \<or> existsSync projectEntries ''nuxt.config.js'')
     \<and> (\<exists>entries aliases known content k.
           map_of projectEntries ''src'' = Some (Dir entries)
           \<and> k < countDirectories (Dir entries)
           \<and> getAliasesWithPaths cwd (provider k) = Inr aliases
           \<and> (if ''--replace-absolute'' \<in> set args
               then getKnownDirectories projectEntries = Inr known else known = [])
           \<and> (filePath, content) \<in> set (filesUnder (startDir cwd) (Dir entries))
           \<and> hasExtension filePath
           \<and> written = rewriteContent cwd (''--replace-absolute'' \<in> set args) known
                           (ownEntries aliases) filePath content
           \<and> written \<noteq> content)"
proof -
  have walk: "(existsSync projectEntries ''nuxt.config.ts'' \<or> existsSync projectEntries ''nuxt.config.js'')
              \<and> (\<exists>aliases. getAliasesWithPaths cwd (provider 0) = Inr aliases)
              \<and> (\<exists>entries. map_of projectEntries ''src'' = Some (Dir entries))"
  proof (rule ccontr)
    assume "\<not> ?thesis"
    from main_stops_early(2) [where provider = provider and cwd = cwd
        and projectEntries = projectEntries, OF this] assms show False
      by blast
  qed
  then obtain entries
    where present: "existsSync projectEntries ''nuxt.config.ts'' \<or> existsSync projectEntries ''nuxt.config.js''"
    and src: "map_of projectEntries ''src'' = Some (Dir entries)"
    by blast
  obtain known where known: "if ''--replace-absolute'' \<in> set args
      then getKnownDirectories projectEntries = Inr known else known = []"
    using known_if_directory [OF src] by blast
  let ?e = "\<lparr>projectRoot = cwd, replaceAbsoluteFlag = (''--replace-absolute'' \<in> set args),
              knownDirs = known, configOutcome = provider\<rparr>"
  from main_walk_events [OF present known src assms]
  have "WriteFile filePath written \<in> set (resumeCalls ?e 0 [(startDir cwd, Dir entries)])"
    using scan_events(4) by blast
  from resume_write_only [OF this] obtain j aliases x content
    where j: "j < 0 + callsBelow [(startDir cwd, Dir entries)]"
      and ok: "getAliasesWithPaths (projectRoot ?e) (configOutcome ?e j) = Inr aliases"
      and x: "x \<in> set [(startDir cwd, Dir entries)]"
      and mem: "(filePath, content) \<in> set (filesUnder (fst x) (snd x))"
      and rest: "hasExtension filePath"
        "written = rewriteContent (projectRoot ?e) (replaceAbsoluteFlag ?e) (knownDirs ?e)
                     (ownEntries aliases) filePath content"
        "written \<noteq> content"
    by blast
  from j have j': "j < countDirectories (Dir entries)"
    by (simp add: callsBelow_single)
  from ok have ok': "getAliasesWithPaths cwd (provider j) = Inr aliases"
    by simp
  from x mem have mem': "(filePath, content) \<in> set (filesUnder (startDir cwd) (Dir entries))"
    by simp
  from rest(2) have out: "written = rewriteContent cwd (''--replace-absolute'' \<in> set args) known
                           (ownEntries aliases) filePath content"
    by simp
  have "\<exists>entries aliases known content k.
           map_of projectEntries ''src'' = Some (Dir entries)
           \<and> k < countDirectories (Dir entries)
           \<and> getAliasesWithPaths cwd (provider k) = Inr aliases
           \<and> (if ''--replace-absolute'' \<in> set args
               then getKnownDirectories projectEntries = Inr known else known = [])
           \<and> (filePath, content) \<in> set (filesUnder (startDir cwd) (Dir entries))
           \<and> hasExtension filePath
           \<and> written = rewriteContent cwd (''--replace-absolute'' \<in> set args) known
                           (ownEntries aliases) filePath content
           \<and> written \<noteq> content"
    using src j' ok' known mem' rest(1) out rest(3) by (intro exI conjI)
  with present show ?thesis ..
qed

lemma main_write_all:
  assumes present: "existsSync projectEntries ''nuxt.config.ts'' \<or> existsSync projectEntries ''nuxt.config.js''"
    and known: "if ''--replace-absolute'' \<in> set args
                then getKnownDirectories projectEntries = Inr known else known = []"
    and src: "map_of projectEntries ''src'' = Some (Dir entries)"
    and same: "\<forall>k < countDirectories (Dir entries). getAliasesWithPaths cwd (provider k) = Inr aliases"
    and mem: "(filePath, content) \<in> set (filesUnder (startDir cwd) (Dir entries))"
    and ext: "hasExtension filePath"
    and out: "written = rewriteContent cwd (''--replace-absolute'' \<in> set args) known
                           (ownEntries aliases) filePath content"
    and neq: "written \<noteq> content"
  shows "WriteFile filePath written \<in> set (main cwd args provider projectEntries)"
proof -
  let ?e = "\<lparr>projectRoot = cwd, replaceAbsoluteFlag = (''--replace-absolute'' \<in> set args),
              knownDirs = known, configOutcome = provider\<rparr>"
  have ok: "\<forall>k < countDirectories (Dir entries). \<exists>aliases. getAliasesWithPaths cwd (provider k) = Inr aliases"
    using same by blast
  have dirs: "\<forall>x \<in> set [(startDir cwd, Dir entries)]. isDirectory (snd x)"
    by (simp add: isDirectory_def)
  have range: "\<forall>j. 0 \<le> j \<and> j < 0 + callsBelow [(startDir cwd, Dir entries)] \<longrightarrow>
           getAliasesWithPaths (projectRoot ?e) (configOutcome ?e j) = Inr aliases"
    using same by (simp add: callsBelow_single)
  have x: "(startDir cwd, Dir entries) \<in> set [(startDir cwd, Dir entries)]"
    by simp
  have mem': "(filePath, content) \<in> set (filesUnder (fst (startDir cwd, Dir entries)) (snd (startDir cwd, Dir entries)))"
    using mem by simp
  have out': "written = rewriteContent (projectRoot ?e) (replaceAbsoluteFlag ?e) (knownDirs ?e)
                     (ownEntries aliases) filePath content"
    using out by simp
  have "WriteFile filePath written \<in> set (resumeCalls ?e 0 [(startDir cwd, Dir entries)])"
    using dirs range x mem' ext out' neq by (rule resume_write_all)
  then show ?thesis
    unfolding main_walk_through(1) [OF present known src ok]
    by (simp only: set_append set_simps Un_iff insert_iff) blast
qed

text \<open>
  Claim C7. Whatever the loads of a run give, the run writes the text \<open>written\<close> to the path
  \<open>filePath\<close> only when the configuration file is there, \<open>filePath\<close> is the path of a file
  below the \<open>src\<close> directory, the path ends in one of the four extensions, \<open>written\<close> is
  what the rewrite makes of the file's text with a table that one of the loads of the run
  has built, and it differs from that text. When every load gives the same outcome, the
  run writes exactly these texts to exactly these paths.
\<close>

theorem written_iff_eligible_and_changed:
  "(WriteFile filePath written \<in> set (main cwd args provider projectEntries) \<longrightarrow>
     (existsSync projectEntries ''nuxt.config.ts'' \<or> existsSync projectEntries ''nuxt.config.js'')
     \<and> (\<exists>entries aliases known content k.
           map_of projectEntries ''src'' = Some (Dir entries)
           \<and> k < countDirectories (Dir entries)
           \<and> getAliasesWithPaths cwd (provider k) = Inr aliases
           \<and> (if ''--replace-absolute'' \<in> set args
               then getKnownDirectories projectEntries = Inr known else known = [])
           \<and> (filePath, content) \<in> set (filesUnder (startDir cwd) (Dir entries))
           \<and> (endsWith filePath ''.ts'' \<or> endsWith filePath ''.vue''
                \<or> endsWith filePath ''.scss'' \<or> endsWith filePath ''.js'')
           \<and> written = rewriteContent cwd (''--replace-absolute'' \<in> set args) known
                           (ownEntries aliases) filePath content
           \<and> written \<noteq> content))
   \<and> (WriteFile filePath written \<in> set (main cwd args (always loaded) projectEntries) \<longleftrightarrow>
     (existsSync projectEntries ''nuxt.config.ts'' \<or> existsSync projectEntries ''nuxt.config.js'')
     \<and> (\<exists>entries aliases known content.
           map_of projectEntries ''src'' = Some (Dir entries)
           \<and> getAliasesWithPaths cwd loaded = Inr aliases
           \<and> (if ''--replace-absolute'' \<in> set args
               then getKnownDirectories projectEntries = Inr known else known = [])
           \<and> (filePath, content) \<in> set (filesUnder (startDir cwd) (Dir entries))
           \<and> (endsWith filePath ''.ts'' \<or> endsWith filePath ''.vue''
                \<or> endsWith filePath ''.scss'' \<or> endsWith filePath ''.js'')
           \<and> written = rewriteContent cwd (''--replace-absolute'' \<in> set args) known
                           (ownEntries aliases) filePath content
           \<and> written \<noteq> content))"
  (is "(?L provider \<longrightarrow> ?present \<and> ?R) \<and> (?L (always loaded) \<longleftrightarrow> ?present \<and> ?S)")
proof -
  have only: "?L provider \<longrightarrow> ?present \<and> ?R"
  proof
    assume "?L provider"
    from main_write_only [OF this] show "?present \<and> ?R"
      by (simp only: hasExtension_def)
  qed
  have "?L (always loaded) \<longleftrightarrow> ?present \<and> ?S"
  proof
    assume "?L (always loaded)"
    from main_write_only [OF this] obtain entries aliases known content k
      where present: ?present
        and r: "map_of projectEntries ''src'' = Some (Dir entries)"
          "getAliasesWithPaths cwd (always loaded k) = Inr aliases"
          "if ''--replace-absolute'' \<in> set args
               then getKnownDirectories projectEntries = Inr known else known = []"
          "(filePath, content) \<in> set (filesUnder (startDir cwd) (Dir entries))"
          "hasExtension filePath"
          "written = rewriteContent cwd (''--replace-absolute'' \<in> set args) known
                           (ownEntries aliases) filePath content"
          "written \<noteq> content"
      by blast
    have ?S
      using r(1) r(2) [unfolded always_def] r(3) r(4) r(5) [unfolded hasExtension_def] r(6) r(7)
      by (intro exI conjI)
    with present show "?present \<and> ?S" ..
  next
    assume "?present \<and> ?S"
    then obtain entries aliases known content
      where present: ?present
        and r: "map_of projectEntries ''src'' = Some (Dir entries)"
          "getAliasesWithPaths cwd loaded = Inr aliases"
          "if ''--replace-absolute'' \<in> set args
               then getKnownDirectories projectEntries = Inr known else known = []"
          "(filePath, content) \<in> set (filesUnder (startDir cwd) (Dir entries))"
          "endsWith filePath ''.ts'' \<or> endsWith filePath ''.vue''
                \<or> endsWith filePath ''.scss'' \<or> endsWith filePath ''.js''"
          "written = rewriteContent cwd (''--replace-absolute'' \<in> set args) known
                           (ownEntries aliases) filePath content"
          "written \<noteq> content"
      by blast
    have same: "\<forall>k < countDirectories (Dir entries). getAliasesWithPaths cwd (always loaded k) = Inr aliases"
      using r(2) by (simp add: always_def)
    have ext: "hasExtension filePath"
      using r(5) by (simp only: hasExtension_def)
    from present r(3) r(1) same r(4) ext r(6) r(7) show "?L (always loaded)"
      by (rule main_write_all)
  qed
  with only show ?thesis ..
qed

theorem written_iff_eligible_and_changed_witness:
  "WriteFile ''/proj/src/components/A.vue'' ''import X from '../utils/x';''
     \<in> set (main ''/proj'' []
               (always (Inr \<lparr>configRootDir = Some ''/proj'', configSrcDir = Some ''src'', configAlias = None\<rparr>))
               [(''nuxt.config.js'', File ''export default {}''),
                (''src'', Dir [(''components'', Dir [(''A.vue'', File ''import X from '~/utils/x';''),
                                                   (''notes.txt'', File ''see '~/utils/x';'')]),
                              (''utils'', Dir [(''x.js'', File ''export default 1'')])])])
   \<and> WriteFile ''/proj/src/components/notes.txt'' ''see '../utils/x';''
     \<notin> set (main ''/proj'' []
               (always (Inr \<lparr>configRootDir = Some ''/proj'', configSrcDir = Some ''src'', configAlias = None\<rparr>))
               [(''nuxt.config.js'', File ''export default {}''),
                (''src'', Dir [(''components'', Dir [(''A.vue'', File ''import X from '~/utils/x';''),
                                                   (''notes.txt'', File ''see '~/utils/x';'')]),
                              (''utils'', Dir [(''x.js'', File ''export default 1'')])])])"
proof -
  let ?cfg = "\<lparr>configRootDir = Some ''/proj'', configSrcDir = Some ''src'', configAlias = None\<rparr>"
  let ?src = "[(''components'', Dir [(''A.vue'', File ''import X from '~/utils/x';''),
                                     (''notes.txt'', File ''see '~/utils/x';'')]),
               (''utils'', Dir [(''x.js'', File ''export default 1'')])]"
  let ?tree = "[(''nuxt.config.js'', File ''export default {}''), (''src'', Dir ?src)]"
  have present: "existsSync ?tree ''nuxt.config.ts'' \<or> existsSync ?tree ''nuxt.config.js''"
    by code_simp
  have src: "map_of ?tree ''src'' = Some (Dir ?src)"
    by simp
  have ok: "getAliasesWithPaths ''/proj'' (Inr ?cfg) = Inr (defaultAliases ''/proj/src'' ''/proj'')"
    by code_simp
  have known: "if ''--replace-absolute'' \<in> set [] then getKnownDirectories ?tree = Inr [] else [] = ([] :: string list)"
    by simp
  have mem: "(''/proj/src/components/A.vue'', ''import X from '~/utils/x';'')
             \<in> set (filesUnder (startDir ''/proj'') (Dir ?src))"
    by code_simp
  have ext: "endsWith ''/proj/src/components/A.vue'' ''.ts'' \<or> endsWith ''/proj/src/components/A.vue'' ''.vue''
             \<or> endsWith ''/proj/src/components/A.vue'' ''.scss'' \<or> endsWith ''/proj/src/components/A.vue'' ''.js''"
    by code_simp
  have out: "''import X from '../utils/x';''
             = rewriteContent ''/proj'' (''--replace-absolute'' \<in> set []) []
                 (ownEntries (defaultAliases ''/proj/src'' ''/proj'')) ''/proj/src/components/A.vue''
                 ''import X from '~/utils/x';''"
    by code_simp
  have neq: "''import X from '../utils/x';'' \<noteq> ''import X from '~/utils/x';''"
    by simp
  have first: "WriteFile ''/proj/src/components/A.vue'' ''import X from '../utils/x';''
     \<in> set (main ''/proj'' [] (always (Inr ?cfg)) ?tree)"
    unfolding written_iff_eligible_and_changed [THEN conjunct2]
    using present src ok known mem ext out neq by (intro conjI exI)
  have noext: "\<not> (endsWith ''/proj/src/components/notes.txt'' ''.ts'' \<or> endsWith ''/proj/src/components/notes.txt'' ''.vue''
             \<or> endsWith ''/proj/src/components/notes.txt'' ''.scss'' \<or> endsWith ''/proj/src/components/notes.txt'' ''.js'')"
    by code_simp
  have second: "WriteFile ''/proj/src/components/notes.txt'' ''see '../utils/x';''
     \<notin> set (main ''/proj'' [] (always (Inr ?cfg)) ?tree)"
    using written_iff_eligible_and_changed [THEN conjunct1, of "''/proj/src/components/notes.txt''"
        "''see '../utils/x';''" "''/proj''" "[]" "always (Inr ?cfg)" ?tree] noext
    by blast
  from first second show ?thesis ..
qed

lemma provider_fails: "provider k = Inl err \<Longrightarrow> getAliasesWithPaths cwd (provider k) = Inl err"
  by (simp add: getAliasesWithPaths_def)

text \<open>The runs in which the first load fails.\<close>

lemma main_first_load_fails:
  assumes present: "existsSync projectEntries ''nuxt.config.ts'' \<or> existsSync projectEntries ''nuxt.config.js''"
    and known: "if ''--replace-absolute'' \<in> set args
                then getKnownDirectories projectEntries = Inr known else known = []"
    and bad: "getAliasesWithPaths cwd (provider 0) = Inl err"
  shows "main cwd args provider projectEntries
         = (if ''--replace-absolute'' \<in> set args
            then knownDirectoriesListed cwd projectEntries
                 @ [ConsoleLog ''Will replace all absolute paths starting from any of these path segments: ''
                      (Some known)]
            else [])
           @ [LoadConfig, ConsoleError ''Error loading Nuxt configuration:'' (Some err), Exit 1]"
proof -
  let ?e = "\<lparr>projectRoot = cwd, replaceAbsoluteFlag = (''--replace-absolute'' \<in> set args),
              knownDirs = known, configOutcome = provider\<rparr>"
  have "getAliasesWithPaths (projectRoot ?e) (configOutcome ?e 0) = Inl err"
    using bad by simp
  from traverse_first_fails [OF this] show ?thesis
    unfolding main_traverse [OF present known] by simp
qed

text \<open>The runs in which a load fails after the loads before it have built their tables.\<close>

lemma main_load_fails:
  assumes present: "existsSync projectEntries ''nuxt.config.ts'' \<or> existsSync projectEntries ''nuxt.config.js''"
    and src: "map_of projectEntries ''src'' = Some (Dir entries)"
    and f: "f < countDirectories (Dir entries)"
    and ok: "\<forall>k < f. \<exists>aliases. getAliasesWithPaths cwd (provider k) = Inr aliases"
    and bad: "getAliasesWithPaths cwd (provider f) = Inl err"
  shows "\<exists>evs. main cwd args provider projectEntries
                 = evs @ [ConsoleError ''Error loading Nuxt configuration:'' (Some err), Exit 1]
               \<and> (\<forall>ev \<in> set evs. \<not> isFinal ev)"
proof -
  obtain known where known: "if ''--replace-absolute'' \<in> set args
      then getKnownDirectories projectEntries = Inr known else known = []"
    using known_if_directory [OF src] by blast
  let ?e = "\<lparr>projectRoot = cwd, replaceAbsoluteFlag = (''--replace-absolute'' \<in> set args),
              knownDirs = known, configOutcome = provider\<rparr>"
  let ?scan = "if ''--replace-absolute'' \<in> set args
            then knownDirectoriesListed cwd projectEntries
                 @ [ConsoleLog ''Will replace all absolute paths starting from any of these path segments: ''
                      (Some known)]
            else []"
  let ?end = "[ConsoleError ''Error loading Nuxt configuration:'' (Some err), Exit 1]"
  have dirs: "\<forall>x \<in> set [(startDir cwd, Dir entries)]. isDirectory (snd x)"
    by (simp add: isDirectory_def)
  have lo: "0 \<le> f" by simp
  have hi: "f < 0 + callsBelow [(startDir cwd, Dir entries)]"
    using f by (simp add: callsBelow_single)
  have range: "\<forall>j. 0 \<le> j \<and> j < f \<longrightarrow>
           (\<exists>aliases. getAliasesWithPaths (projectRoot ?e) (configOutcome ?e j) = Inr aliases)"
    using ok by simp
  have bad': "getAliasesWithPaths (projectRoot ?e) (configOutcome ?e f) = Inl err"
    using bad by simp
  from resume_fail [OF dirs lo hi range bad'] obtain evs
    where evs: "resumeCalls ?e 0 [(startDir cwd, Dir entries)] = evs @ ?end"
      and nf: "\<forall>ev \<in> set evs. \<not> isFinal ev"
    by blast
  have nf': "\<forall>ev \<in> set (LoadConfig # evs). \<not> isFinal ev"
    using nf by simp
  have "untilFinal (LoadConfig # resumeCalls ?e 0 [(startDir cwd, Dir entries)])
        = untilFinal ((LoadConfig # evs) @ ?end)"
    unfolding evs by simp
  also have "\<dots> = (LoadConfig # evs) @ untilFinal ?end"
    using nf' by (rule untilFinal_append)
  also have "\<dots> = (LoadConfig # evs) @ ?end"
    by simp
  finally have walk: "untilFinal (LoadConfig # resumeCalls ?e 0 [(startDir cwd, Dir entries)])
        = (LoadConfig # evs) @ ?end" .
  have m: "main cwd args provider projectEntries = (?scan @ LoadConfig # evs) @ ?end"
    unfolding main_walk [OF present known src] walk by simp
  have "\<forall>ev \<in> set ?scan. \<not> isFinal ev"
    using scan_events(1) by blast
  with nf' have "\<forall>ev \<in> set (?scan @ LoadConfig # evs). \<not> isFinal ev"
    by (simp only: set_append Un_iff) blast
  with m show ?thesis by blast
qed

lemma exitCode_reported:
  assumes "\<forall>ev \<in> set evs. \<not> isFinal ev"
  shows "exitCode (evs @ [ConsoleError msg err, Exit n]) = Some n"
  unfolding exitCode_append [OF assms] by (simp add: exitCode_def)

text \<open>The runs in which the walk cannot start.\<close>

lemma main_no_directory:
  assumes present: "existsSync projectEntries ''nuxt.config.ts'' \<or> existsSync projectEntries ''nuxt.config.js''"
    and nodir: "\<forall>entries. map_of projectEntries ''src'' \<noteq> Some (Dir entries)"
    and ok: "(\<exists>aliases. getAliasesWithPaths cwd (provider 0) = Inr aliases)
             \<or> (''--replace-absolute'' \<in> set args \<and> (\<exists>c. map_of projectEntries ''src'' = Some (File c)))"
  shows "exitCode (main cwd args provider projectEntries) = None"
proof (cases "''--replace-absolute'' \<in> set args \<and> (\<exists>c. map_of projectEntries ''src'' = Some (File c))")
  case True
  then obtain c where "''--replace-absolute'' \<in> set args" "map_of projectEntries ''src'' = Some (File c)"
    by blast
  from main_known_fails [OF present this] show ?thesis
    by (simp add: exitCode_def)
next
  case False
  with ok obtain aliases where table: "getAliasesWithPaths cwd (provider 0) = Inr aliases"
    by blast
  from known_unless_file [OF False] obtain known
    where known: "if ''--replace-absolute'' \<in> set args
                  then getKnownDirectories projectEntries = Inr known else known = []"
    by blast
  let ?e = "\<lparr>projectRoot = cwd, replaceAbsoluteFlag = (''--replace-absolute'' \<in> set args),
              knownDirs = known, configOutcome = provider\<rparr>"
  let ?scan = "if ''--replace-absolute'' \<in> set args
            then knownDirectoriesListed cwd projectEntries
                 @ [ConsoleLog ''Will replace all absolute paths starting from any of these path segments: ''
                      (Some known)]
            else []"
  have table': "getAliasesWithPaths (projectRoot ?e) (configOutcome ?e 0) = Inr aliases"
    using table by simp
  have "\<exists>err. traverse ?e projectEntries = [LoadConfig, Uncaught err]"
  proof (cases "map_of projectEntries ''src''")
    case None
    from traverse_no_directory(1) [OF table' None] show ?thesis by blast
  next
    case (Some n)
    with nodir obtain c where "n = File c" by (cases n) simp_all
    with Some have "map_of projectEntries ''src'' = Some (File c)" by simp
    from traverse_no_directory(2) [OF table' this] show ?thesis by blast
  qed
  then obtain err where t: "traverse ?e projectEntries = [LoadConfig, Uncaught err]"
    by blast
  have nf: "\<forall>ev \<in> set ?scan. \<not> isFinal ev"
    using scan_events(1) by blast
  have "exitCode (main cwd args provider projectEntries) = exitCode (untilFinal [LoadConfig, Uncaught err])"
    unfolding main_traverse [OF present known] t using nf by (rule exitCode_append)
  then show ?thesis
    by (simp add: exitCode_def)
qed

text \<open>
  Claim C8, as far as it holds. Without a configuration file the run reports that and ends
  with code 1. With one, a provider that fails at the first load makes the run report the
  error and end with code 1 with no file read or written; this presupposes that the
  known-directory scan, which comes first in absolute-path mode, has not thrown because
  \<open>src\<close> is a file. The configuration is loaded again for every directory: a provider that
  fails at a later load, after the loads before it have built their tables, makes the run
  report the error and end with code 1 as well, whatever has been written by then. When
  \<open>src\<close> is a directory and every load builds a table, the run ends with the implicit
  code 0. When \<open>src\<close> is missing or a file, listing it throws, in the walker once the
  first table is built or, for a file in absolute-path mode, in the known-directory scan;
  nothing catches the error, and no file is read or written.
\<close>

theorem exit_code_by_case:
  "(\<not> existsSync projectEntries ''nuxt.config.ts'' \<and> \<not> existsSync projectEntries ''nuxt.config.js'' \<longrightarrow>
      main cwd args provider projectEntries
        = [ConsoleError ''Error: Nuxt configuration file not found. Please make sure nuxt.config.ts or nuxt.config.js exists in the project root.'' None,
           Exit 1]
      \<and> exitCode (main cwd args provider projectEntries) = Some 1)
   \<and> ((existsSync projectEntries ''nuxt.config.ts'' \<or> existsSync projectEntries ''nuxt.config.js'')
       \<and> provider 0 = Inl err
       \<and> \<not> (''--replace-absolute'' \<in> set args \<and> (\<exists>c. map_of projectEntries ''src'' = Some (File c))) \<longrightarrow>
      exitCode (main cwd args provider projectEntries) = Some 1
      \<and> ConsoleError ''Error loading Nuxt configuration:'' (Some err)
          \<in> set (main cwd args provider projectEntries)
      \<and> (\<forall>p. ReadFile p \<notin> set (main cwd args provider projectEntries))
      \<and> (\<forall>p w. WriteFile p w \<notin> set (main cwd args provider projectEntries)))
   \<and> ((existsSync projectEntries ''nuxt.config.ts'' \<or> existsSync projectEntries ''nuxt.config.js'')
       \<and> map_of projectEntries ''src'' = Some (Dir entries)
       \<and> f < countDirectories (Dir entries)
       \<and> (\<forall>k < f. \<exists>aliases. getAliasesWithPaths cwd (provider k) = Inr aliases)
       \<and> provider f = Inl err' \<longrightarrow>
      exitCode (main cwd args provider projectEntries) = Some 1
      \<and> ConsoleError ''Error loading Nuxt configuration:'' (Some err')
          \<in> set (main cwd args provider projectEntries))
   \<and> ((existsSync projectEntries ''nuxt.config.ts'' \<or> existsSync projectEntries ''nuxt.config.js'')
       \<and> map_of projectEntries ''src'' = Some (Dir entries)
       \<and> (\<forall>k < countDirectories (Dir entries). \<exists>aliases. getAliasesWithPaths cwd (provider k) = Inr aliases) \<longrightarrow>
      exitCode (main cwd args provider projectEntries) = Some 0)
   \<and> ((existsSync projectEntries ''nuxt.config.ts'' \<or> existsSync projectEntries ''nuxt.config.js'')
       \<and> (\<forall>entries. map_of projectEntries ''src'' \<noteq> Some (Dir entries))
       \<and> ((\<exists>aliases. getAliasesWithPaths cwd (provider 0) = Inr aliases)
            \<or> (''--replace-absolute'' \<in> set args \<and> (\<exists>c. map_of projectEntries ''src'' = Some (File c)))) \<longrightarrow>
      exitCode (main cwd args provider projectEntries) = None
      \<and> (\<forall>p. ReadFile p \<notin> set (main cwd args provider projectEntries))
      \<and> (\<forall>p w. WriteFile p w \<notin> set (main cwd args provider projectEntries)))"
  (is "(?absent \<longrightarrow> ?A) \<and> (?present \<and> ?first \<and> ?scan \<longrightarrow> ?B) \<and> (?present \<and> ?src \<and> ?f \<and> ?before \<and> ?later \<longrightarrow> ?C)
       \<and> (?present \<and> ?src \<and> ?good \<longrightarrow> ?D) \<and> (?present \<and> ?nodir \<and> ?start \<longrightarrow> ?E)")
proof -
  have A: "?absent \<longrightarrow> ?A"
    by (simp add: main_absent exitCode_def)
  have B: "?present \<and> ?first \<and> ?scan \<longrightarrow> ?B"
  proof
    assume a: "?present \<and> ?first \<and> ?scan"
    then have present: ?present and scan: ?scan by blast+
    from a have bad: "getAliasesWithPaths cwd (provider 0) = Inl err"
      by (simp add: provider_fails)
    from known_unless_file [OF scan] obtain known
      where known: "if ''--replace-absolute'' \<in> set args
                    then getKnownDirectories projectEntries = Inr known else known = []"
      by blast
    let ?before = "(if ''--replace-absolute'' \<in> set args
            then knownDirectoriesListed cwd projectEntries
                 @ [ConsoleLog ''Will replace all absolute paths starting from any of these path segments: ''
                      (Some known)]
            else []) @ [LoadConfig]"
    have m: "main cwd args provider projectEntries
             = ?before @ [ConsoleError ''Error loading Nuxt configuration:'' (Some err), Exit 1]"
      unfolding main_first_load_fails [where provider = provider, OF present known bad] by simp
    have nf: "\<forall>ev \<in> set ?before. \<not> isFinal ev"
      using scan_events(1) by (simp only: set_append Un_iff) auto
    have code: "exitCode (main cwd args provider projectEntries) = Some 1"
      unfolding m using nf by (rule exitCode_reported)
    have shown: "ConsoleError ''Error loading Nuxt configuration:'' (Some err)
          \<in> set (main cwd args provider projectEntries)"
      unfolding m by simp
    have early: "\<not> (?present
        \<and> (\<exists>aliases. getAliasesWithPaths cwd (provider 0) = Inr aliases)
        \<and> (\<exists>entries. map_of projectEntries ''src'' = Some (Dir entries)))"
      using bad by simp
    note stops = main_stops_early [where provider = provider and cwd = cwd
        and projectEntries = projectEntries, OF early]
    from code shown stops show ?B by blast
  qed
  have C: "?present \<and> ?src \<and> ?f \<and> ?before \<and> ?later \<longrightarrow> ?C"
  proof
    assume a: "?present \<and> ?src \<and> ?f \<and> ?before \<and> ?later"
    then have present: ?present and src: ?src and f: ?f and before: ?before by blast+
    from a have bad: "getAliasesWithPaths cwd (provider f) = Inl err'"
      by (simp add: provider_fails)
    from main_load_fails [where provider = provider and args = args, OF present src f before bad] obtain evs
      where m: "main cwd args provider projectEntries
                 = evs @ [ConsoleError ''Error loading Nuxt configuration:'' (Some err'), Exit 1]"
        and nf: "\<forall>ev \<in> set evs. \<not> isFinal ev"
      by blast
    have "exitCode (main cwd args provider projectEntries) = Some 1"
      unfolding m using nf by (rule exitCode_reported)
    moreover have "ConsoleError ''Error loading Nuxt configuration:'' (Some err')
          \<in> set (main cwd args provider projectEntries)"
      unfolding m by simp
    ultimately show ?C ..
  qed
  have D: "?present \<and> ?src \<and> ?good \<longrightarrow> ?D"
  proof
    assume a: "?present \<and> ?src \<and> ?good"
    then have present: ?present and src: ?src and good: ?good by blast+
    obtain known where known: "if ''--replace-absolute'' \<in> set args
        then getKnownDirectories projectEntries = Inr known else known = []"
      using known_if_directory [OF src] by blast
    from main_walk_through(2) [OF present known src good] show ?D
      by (rule exitCode_no_final)
  qed
  have E: "?present \<and> ?nodir \<and> ?start \<longrightarrow> ?E"
  proof
    assume a: "?present \<and> ?nodir \<and> ?start"
    then have present: ?present and nodir: ?nodir and start: ?start by blast+
    have code: "exitCode (main cwd args provider projectEntries) = None"
      using present nodir start by (rule main_no_directory)
    have early: "\<not> (?present
        \<and> (\<exists>aliases. getAliasesWithPaths cwd (provider 0) = Inr aliases)
        \<and> (\<exists>entries. map_of projectEntries ''src'' = Some (Dir entries)))"
      using nodir by blast
    note stops = main_stops_early [where provider = provider and cwd = cwd
        and projectEntries = projectEntries, OF early]
    from code stops show ?E by blast
  qed
  show ?thesis
    by (rule conjI [OF A conjI [OF B conjI [OF C conjI [OF D E]]]])
qed

theorem exit_code_by_case_witness:
  "exitCode (main ''/proj'' []
               (always (Inr \<lparr>configRootDir = None, configSrcDir = Some ''src'', configAlias = None\<rparr>))
               [(''README.md'', File ''x''),
                (''src'', Dir [(''a.js'', File ''import a from '~/b';''), (''sub'', Dir [])])]) = Some 1
   \<and> exitCode (main ''/proj'' [''--replace-absolute''] (always (Inl ConfigLoadFailed))
               [(''nuxt.config.ts'', File ''x''),
                (''src'', Dir [(''a.js'', File ''import a from '~/b';''), (''sub'', Dir [])])]) = Some 1
   \<and> exitCode (main ''/proj'' []
               ((always (Inr \<lparr>configRootDir = None, configSrcDir = Some ''src'', configAlias = None\<rparr>))
                  (1 := Inl ConfigLoadFailed))
               [(''nuxt.config.ts'', File ''x''),
                (''src'', Dir [(''a.js'', File ''import a from '~/b';''), (''sub'', Dir [])])]) = Some 1
   \<and> exitCode (main ''/proj'' []
               (always (Inr \<lparr>configRootDir = None, configSrcDir = Some ''src'', configAlias = None\<rparr>))
               [(''nuxt.config.ts'', File ''x''),
                (''src'', Dir [(''a.js'', File ''import a from '~/b';''), (''sub'', Dir [])])]) = Some 0
   \<and> exitCode (main ''/proj'' [''--replace-absolute'']
               (always (Inr \<lparr>configRootDir = None, configSrcDir = Some ''src'', configAlias = None\<rparr>))
               [(''nuxt.config.ts'', File ''x''), (''src'', File ''x'')]) = None"
proof -
  let ?cfg = "\<lparr>configRootDir = None, configSrcDir = Some ''src'', configAlias = None\<rparr>"
  let ?entries = "[(''a.js'', File ''import a from '~/b';''), (''sub'', Dir [])]"
  let ?src = "(''src'', Dir ?entries)"
  let ?absent = "[(''README.md'', File ''x''), ?src]"
  let ?tree = "[(''nuxt.config.ts'', File ''x''), ?src]"
  let ?nodir = "[(''nuxt.config.ts'', File ''x''), (''src'', File ''x'')]"
  let ?later = "(always (Inr ?cfg))(1 := Inl ConfigLoadFailed)"
  have absent: "\<not> existsSync ?absent ''nuxt.config.ts'' \<and> \<not> existsSync ?absent ''nuxt.config.js''"
    by code_simp
  have present: "existsSync ?tree ''nuxt.config.ts'' \<or> existsSync ?tree ''nuxt.config.js''"
    by code_simp
  have present': "existsSync ?nodir ''nuxt.config.ts'' \<or> existsSync ?nodir ''nuxt.config.js''"
    by code_simp
  have table: "getAliasesWithPaths ''/proj'' (Inr ?cfg) = Inr (defaultAliases ''/proj/src'' ''/proj'')"
    by code_simp
  have first: "always (Inl ConfigLoadFailed) 0 = Inl ConfigLoadFailed"
    by (simp add: always_def)
  have scan: "\<not> (''--replace-absolute'' \<in> set [''--replace-absolute'']
                   \<and> (\<exists>c. map_of ?tree ''src'' = Some (File c)))"
    by simp
  have src: "map_of ?tree ''src'' = Some (Dir ?entries)"
    by simp
  have f: "1 < countDirectories (Dir ?entries)"
    by simp
  have before: "\<forall>k < 1. \<exists>aliases. getAliasesWithPaths ''/proj'' (?later k) = Inr aliases"
    by (simp add: always_def table)
  have later: "?later 1 = Inl ConfigLoadFailed"
    by simp
  have good: "\<forall>k < countDirectories (Dir ?entries).
                \<exists>aliases. getAliasesWithPaths ''/proj'' (always (Inr ?cfg) k) = Inr aliases"
    unfolding always_def table by blast
  have nodir: "\<forall>entries. map_of ?nodir ''src'' \<noteq> Some (Dir entries)"
    by simp
  have start: "(\<exists>aliases. getAliasesWithPaths ''/proj'' (always (Inr ?cfg) 0) = Inr aliases)
               \<or> (''--replace-absolute'' \<in> set [''--replace-absolute'']
                   \<and> (\<exists>c. map_of ?nodir ''src'' = Some (File c)))"
    by simp
  from exit_code_by_case [where projectEntries = ?absent and cwd = "''/proj''" and args = "[]"
      and provider = "always (Inr ?cfg)"] absent
  have one: "exitCode (main ''/proj'' [] (always (Inr ?cfg)) ?absent) = Some 1"
    by blast
  from exit_code_by_case [where projectEntries = ?tree and cwd = "''/proj''"
      and args = "[''--replace-absolute'']" and provider = "always (Inl ConfigLoadFailed)"
      and err = ConfigLoadFailed] present first scan
  have two: "exitCode (main ''/proj'' [''--replace-absolute''] (always (Inl ConfigLoadFailed)) ?tree) = Some 1"
    by blast
  from exit_code_by_case [where projectEntries = ?tree and cwd = "''/proj''" and args = "[]"
      and provider = ?later and entries = ?entries and f = 1 and err' = ConfigLoadFailed]
    present src f before later
  have three: "exitCode (main ''/proj'' [] ?later ?tree) = Some 1"
    by blast
  from exit_code_by_case [where projectEntries = ?tree and cwd = "''/proj''" and args = "[]"
      and provider = "always (Inr ?cfg)" and entries = ?entries] present src good
  have four: "exitCode (main ''/proj'' [] (always (Inr ?cfg)) ?tree) = Some 0"
    by blast
  from exit_code_by_case [where projectEntries = ?nodir and cwd = "''/proj''"
      and args = "[''--replace-absolute'']" and provider = "always (Inr ?cfg)"] present' nodir start
  have five: "exitCode (main ''/proj'' [''--replace-absolute''] (always (Inr ?cfg)) ?nodir) = None"
    by blast
  from one two three four five show ?thesis
    by (intro conjI)
qed

text \<open>
  Claim C8 as it is written fails in two ways. On a project that has its configuration
  file and a working provider but no \<open>src\<close> directory the run does not proceed and does
  not end with code 0: the walker's listing of \<open>src\<close> throws. And when the provider fails
  at the load for a subdirectory, the run ends with code 1 after the files of \<open>src\<close> have
  been read and written.
\<close>

theorem exit_code_counterexample:
  "main ''/proj'' []
     (always (Inr \<lparr>configRootDir = None, configSrcDir = Some ''src'', configAlias = None\<rparr>))
     [(''nuxt.config.js'', File ''export default {}''), (''pages'', Dir [])]
   = [LoadConfig, Uncaught ENOENT]
   \<and> exitCode (main ''/proj'' []
                (always (Inr \<lparr>configRootDir = None, configSrcDir = Some ''src'', configAlias = None\<rparr>))
                [(''nuxt.config.js'', File ''export default {}''), (''pages'', Dir [])]) = None
   \<and> main ''/proj'' []
       ((always (Inr \<lparr>configRootDir = None, configSrcDir = Some ''src'', configAlias = None\<rparr>))
          (1 := Inl ConfigLoadFailed))
       [(''nuxt.config.js'', File ''export default {}''),
        (''src'', Dir [(''a.js'', File ''import a from '~/b';''), (''sub'', Dir [])])]
     = [LoadConfig, ReadDir ''/proj/src'', ReadFile ''/proj/src/a.js'',
        WriteFile ''/proj/src/a.js'' ''import a from 'b';'',
        ConsoleLog ''Updated imports in /proj/src/a.js'' None, LoadConfig,
        ConsoleError ''Error loading Nuxt configuration:'' (Some ConfigLoadFailed), Exit 1]"
  by code_simp

lemma takeWhile_until:
  "\<forall>x \<in> set xs. P x \<Longrightarrow> \<not> P y \<Longrightarrow> takeWhile P (xs @ y # ys) = xs"
  by (induction xs) simp_all

text \<open>
  Claim C9, as far as it holds. Every call of the walker loads the configuration and
  builds the table before it lists its directory. So a run that walks, and in which every
  load builds a table, loads the configuration once for each directory below and
  including \<open>src\<close>. Before the first load the run does nothing in alias-only mode; in
  absolute-path mode it lists the project root and \<open>src\<close> for the known directories and
  prints them.
\<close>

theorem config_loaded_once_per_directory:
  assumes present: "existsSync projectEntries ''nuxt.config.ts'' \<or> existsSync projectEntries ''nuxt.config.js''"
    and src: "map_of projectEntries ''src'' = Some (Dir entries)"
    and ok: "\<forall>k < countDirectories (Dir entries). \<exists>aliases. getAliasesWithPaths cwd (provider k) = Inr aliases"
  shows "count_list (main cwd args provider projectEntries) LoadConfig = countDirectories (Dir entries)
         \<and> takeWhile (\<lambda>ev. ev \<noteq> LoadConfig) (main cwd args provider projectEntries)
           = (if ''--replace-absolute'' \<in> set args
              then [ReadDir cwd, ReadDir (resolve cwd [cwd, ''src'']),
                    ConsoleLog ''Will replace all absolute paths starting from any of these path segments: ''
                      (Some (uniqueInOrder (getVisibleDirectories projectEntries @ getVisibleDirectories entries)))]
              else [])"
proof -
  obtain known where known: "if ''--replace-absolute'' \<in> set args
      then getKnownDirectories projectEntries = Inr known else known = []"
    using known_if_directory [OF src] by blast
  let ?e = "\<lparr>projectRoot = cwd, replaceAbsoluteFlag = (''--replace-absolute'' \<in> set args),
              knownDirs = known, configOutcome = provider\<rparr>"
  let ?scan = "if ''--replace-absolute'' \<in> set args
            then knownDirectoriesListed cwd projectEntries
                 @ [ConsoleLog ''Will replace all absolute paths starting from any of these path segments: ''
                      (Some known)]
            else []"
  let ?walk = "resumeCalls ?e 0 [(startDir cwd, Dir entries)]"
  have m: "main cwd args provider projectEntries = ?scan @ LoadConfig # ?walk"
    by (rule main_walk_through(1) [OF present known src ok])
  have none: "\<forall>ev \<in> set ?scan. ev \<noteq> LoadConfig"
    using scan_events(2) by blast
  then have zero: "count_list ?scan LoadConfig = 0"
    by (simp only: count_list_0_iff) blast
  have dirs: "\<forall>x \<in> set [(startDir cwd, Dir entries)]. isDirectory (snd x)"
    by (simp add: isDirectory_def)
  have range: "\<forall>j. 0 \<le> j \<and> j < 0 + callsBelow [(startDir cwd, Dir entries)] \<longrightarrow>
           (\<exists>aliases. getAliasesWithPaths (projectRoot ?e) (configOutcome ?e j) = Inr aliases)"
    using ok by (simp add: callsBelow_single)
  have "count_list ?walk LoadConfig + length [(startDir cwd, Dir entries)]
        = callsBelow [(startDir cwd, Dir entries)]"
    using dirs range by (rule resume_count)
  then have walk: "Suc (count_list ?walk LoadConfig) = countDirectories (Dir entries)"
    by (simp only: callsBelow_single) simp
  have count: "count_list (main cwd args provider projectEntries) LoadConfig = countDirectories (Dir entries)"
    unfolding m count_list_append zero using walk by simp
  have "takeWhile (\<lambda>ev. ev \<noteq> LoadConfig) (main cwd args provider projectEntries) = ?scan"
    unfolding m using none by (rule takeWhile_until) simp
  also have "?scan = (if ''--replace-absolute'' \<in> set args
              then [ReadDir cwd, ReadDir (resolve cwd [cwd, ''src'']),
                    ConsoleLog ''Will replace all absolute paths starting from any of these path segments: ''
                      (Some (uniqueInOrder (getVisibleDirectories projectEntries @ getVisibleDirectories entries)))]
              else [])"
  proof (cases "''--replace-absolute'' \<in> set args")
    case True
    from known_of_directory(1) [OF src known True] known_of_directory(2) [OF src known True] True
    show ?thesis
      by simp
  next
    case False
    then show ?thesis by simp
  qed
  finally show ?thesis
    using count by (rule conjI [rotated])
qed

theorem config_loaded_once_per_directory_witness:
  "count_list (main ''/proj'' [''--replace-absolute'']
                 (always (Inr \<lparr>configRootDir = None, configSrcDir = Some ''src'', configAlias = None\<rparr>))
                 [(''nuxt.config.js'', File ''x''), (''lib'', Dir []),
                  (''src'', Dir [(''pages'', Dir [(''admin'', Dir [])]), (''a.js'', File ''x''), (''store'', Dir [])])])
     LoadConfig = 4
   \<and> takeWhile (\<lambda>ev. ev \<noteq> LoadConfig)
       (main ''/proj'' [''--replace-absolute'']
                 (always (Inr \<lparr>configRootDir = None, configSrcDir = Some ''src'', configAlias = None\<rparr>))
                 [(''nuxt.config.js'', File ''x''), (''lib'', Dir []),
                  (''src'', Dir [(''pages'', Dir [(''admin'', Dir [])]), (''a.js'', File ''x''), (''store'', Dir [])])])
     = [ReadDir ''/proj'', ReadDir ''/proj/src'',
        ConsoleLog ''Will replace all absolute paths starting from any of these path segments: ''
          (Some [''lib'', ''src'', ''pages'', ''store''])]"
proof -
  let ?cfg = "\<lparr>configRootDir = None, configSrcDir = Some ''src'', configAlias = None\<rparr>"
  let ?src = "[(''pages'', Dir [(''admin'', Dir [])]), (''a.js'', File ''x''), (''store'', Dir [])]"
  let ?tree = "[(''nuxt.config.js'', File ''x''), (''lib'', Dir []), (''src'', Dir ?src)]"
  have present: "existsSync ?tree ''nuxt.config.ts'' \<or> existsSync ?tree ''nuxt.config.js''"
    by code_simp
  have table: "getAliasesWithPaths ''/proj'' (Inr ?cfg) = Inr (defaultAliases ''/proj/src'' ''/proj'')"
    by code_simp
  have ok: "\<forall>k < countDirectories (Dir ?src). \<exists>aliases. getAliasesWithPaths ''/proj'' (always (Inr ?cfg) k) = Inr aliases"
    unfolding always_def table by blast
  have src: "map_of ?tree ''src'' = Some (Dir ?src)"
    by simp
  have n: "countDirectories (Dir ?src) = 4"
    by simp
  have r: "resolve ''/proj'' [''/proj'', ''src''] = ''/proj/src''"
    by code_simp
  have u: "uniqueInOrder (getVisibleDirectories ?tree @ getVisibleDirectories ?src)
           = [''lib'', ''src'', ''pages'', ''store'']"
    by code_simp
  have flag: "''--replace-absolute'' \<in> set [''--replace-absolute'']"
    by simp
  from config_loaded_once_per_directory [OF present src ok, of "[''--replace-absolute'']"] show ?thesis
    unfolding n r u if_P [OF flag] .
qed

text \<open>
  Claim C9 as it is written fails as soon as \<open>src\<close> has a subdirectory: the configuration
  is loaded a second time for it, after \<open>src\<close> has been listed.
\<close>

theorem config_loaded_counterexample:
  "main ''/proj'' [] (always (Inr \<lparr>configRootDir = None, configSrcDir = Some ''src'', configAlias = None\<rparr>))
     [(''nuxt.config.js'', File ''x''), (''src'', Dir [(''components'', Dir [])])]
   = [LoadConfig, ReadDir ''/proj/src'', LoadConfig, ReadDir ''/proj/src/components'']"
  by code_simp

section \<open>Paths built by the walker\<close>

lemma splitSlash_notNil: "splitSlash s \<noteq> []"
  by (induction s) (auto split: list.splits)

lemma splitSlash_no_slash: "slash \<notin> set s \<Longrightarrow> splitSlash s = [s]"
  by (induction s) auto

lemma splitSlash_append: "splitSlash (a @ slash # b) = splitSlash a @ splitSlash b"
proof (induction a)
  case Nil
  show ?case
    using splitSlash_notNil [of b] by (cases "splitSlash b") simp_all
next
  case (Cons c a)
  show ?case
  proof (cases "c = slash")
    case True
    with Cons show ?thesis by simp
  next
    case False
    obtain s ss where sa: "splitSlash a = s # ss"
      using splitSlash_notNil [of a] by (cases "splitSlash a") auto
    with False Cons show ?thesis by simp
  qed
qed

lemma splitSlash_segments: "s \<in> set (splitSlash p) \<Longrightarrow> slash \<notin> set s"
proof (induction p arbitrary: s)
  case Nil
  then show ?case by simp
next
  case (Cons c p)
  obtain t ts where tp: "splitSlash p = t # ts"
    using splitSlash_notNil [of p] by (cases "splitSlash p") auto
  show ?case
  proof (cases "c = slash")
    case True
    with Cons show ?thesis by auto
  next
    case False
    with Cons.prems tp have "s = c # t \<or> s \<in> set ts" by simp
    then show ?thesis
      using Cons.IH [of t] Cons.IH [of s] tp False by auto
  qed
qed

lemma splitSlash_joinSlash:
  "segs \<noteq> [] \<Longrightarrow> \<forall>s \<in> set segs. slash \<notin> set s \<Longrightarrow> splitSlash (joinSlash segs) = segs"
proof (induction segs rule: joinSlash.induct)
  case 1
  then show ?case by simp
next
  case (2 s)
  then show ?case by (simp add: splitSlash_no_slash)
next
  case (3 s t ss)
  then show ?case
    by (simp add: splitSlash_append splitSlash_no_slash)
qed

lemma joinSlash_snoc:
  "joinSlash (segs @ [s]) = (if segs = [] then s else joinSlash segs @ slash # s)"
  by (induction segs rule: joinSlash.induct) simp_all

lemma normalizeSegments_valid:
  "\<forall>s \<in> set xs. validName s \<Longrightarrow> normalizeSegments a res xs = res @ xs"
  by (induction xs arbitrary: res) (auto simp: validName_def)

lemma normalizeSegments_result:
  "\<forall>s \<in> set res. validName s \<Longrightarrow> \<forall>s \<in> set xs. slash \<notin> set s \<Longrightarrow>
     \<forall>s \<in> set (normalizeSegments False res xs). validName s"
proof (induction xs arbitrary: res)
  case Nil
  then show ?case by simp
next
  case (Cons x xs)
  have bl: "\<forall>s \<in> set (butlast res). validName s"
    using Cons.prems(1) by (auto dest: in_set_butlastD)
  have xs: "\<forall>s \<in> set xs. slash \<notin> set s"
    using Cons.prems(2) by simp
  show ?case
  proof (cases "x = [] \<or> x = ''.''")
    case True
    then show ?thesis
      using Cons.IH [OF Cons.prems(1) xs] by auto
  next
    case False
    show ?thesis
    proof (cases "x = ''..''")
      case True
      then show ?thesis
        using Cons.IH [OF Cons.prems(1) xs] Cons.IH [OF bl xs] by simp
    next
      case nd: False
      have "validName x"
        using False nd Cons.prems(2) by (simp add: validName_def)
      then have "\<forall>s \<in> set (res @ [x]). validName s"
        using Cons.prems(1) by simp
      from Cons.IH [OF this xs] False nd show ?thesis
        by simp
    qed
  qed
qed


lemma joinSlash_snoc_notNil: "s \<noteq> [] \<Longrightarrow> joinSlash (segs @ [s]) \<noteq> []"
  by (simp add: joinSlash_snoc)

lemma validName_last: "validName f \<Longrightarrow> last (x @ slash # f) \<noteq> slash"
proof -
  assume v: "validName f"
  then have "f \<noteq> []" and "slash \<notin> set f"
    by (simp_all add: validName_def)
  then have "last f \<in> set f" and "last (x @ slash # f) = last f"
    by simp_all
  with \<open>slash \<notin> set f\<close> show ?thesis
    by metis
qed

lemma joinPath_child:
  assumes segs: "\<forall>s \<in> set segs. validName s" and f: "validName f"
  shows "joinPath [slash # joinSlash segs, f] = slash # joinSlash (segs @ [f])"
proof -
  let ?d = "slash # joinSlash segs"
  have fne: "f \<noteq> []" and fns: "slash \<notin> set f"
    using f by (simp_all add: validName_def)
  have noslash: "\<forall>s \<in> set segs. slash \<notin> set s"
    using segs by (simp add: validName_def)
  have "splitSlash (?d @ slash # f) = [] # splitSlash (joinSlash segs @ slash # f)"
    by simp
  also have "\<dots> = [] # splitSlash (joinSlash segs) @ [f]"
    by (simp add: splitSlash_append splitSlash_no_slash [OF fns])
  finally have split: "splitSlash (?d @ slash # f) = [] # splitSlash (joinSlash segs) @ [f]" .
  have norm: "normalizeSegments False [] (splitSlash (?d @ slash # f)) = segs @ [f]"
  proof (cases "segs = []")
    case True
    then show ?thesis
      unfolding split using f by (simp add: validName_def)
  next
    case False
    have "normalizeSegments False [] (segs @ [f]) = [] @ (segs @ [f])"
      using segs f by (intro normalizeSegments_valid) simp
    then show ?thesis
      unfolding split splitSlash_joinSlash [OF False noslash] by simp
  qed
  have "normalizeString (?d @ slash # f) False = joinSlash (segs @ [f])"
    unfolding normalizeString_def norm ..
  then have str: "normalizeString (slash # joinSlash segs @ slash # f) False = joinSlash (segs @ [f])"
    by simp
  have abs: "isAbsolute (?d @ slash # f)"
    by (simp add: isAbsolute_def)
  have "normalizePath (?d @ slash # f) = slash # joinSlash (segs @ [f])"
    unfolding normalizePath_def Let_def
    using abs validName_last [OF f, of ?d] joinSlash_snoc_notNil [OF fne, of segs]
    by (simp add: str slash_def [symmetric] del: joinSlash.simps)
  moreover have "joinSlash [?d, f] = slash # joinSlash segs @ slash # f"
    by simp
  ultimately show ?thesis
    using fne by (simp add: joinPath_def del: joinSlash.simps)
qed

lemma joinPath_child_normal:
  assumes "normalAbsolute dir" "validName f"
  shows "normalAbsolute (joinPath [dir, f])" and "startsWith (joinPath [dir, f]) dir"
proof -
  from assms(1) obtain segs where dir: "dir = slash # joinSlash segs"
    and segs: "\<forall>s \<in> set segs. validName s"
    by (auto simp: normalAbsolute_def list_all_iff)
  have child: "joinPath [dir, f] = slash # joinSlash (segs @ [f])"
    unfolding dir using segs assms(2) by (rule joinPath_child)
  show "normalAbsolute (joinPath [dir, f])"
    unfolding child normalAbsolute_def list_all_iff using segs assms(2) by (intro exI [of _ "segs @ [f]"]) simp
  have "\<exists>r. slash # joinSlash (segs @ [f]) = (slash # joinSlash segs) @ r"
    unfolding joinSlash_snoc by (cases "segs = []") simp_all
  then show "startsWith (joinPath [dir, f]) dir"
    unfolding startsWith_iff child by (simp only: dir)
qed

lemma startDir_normal:
  assumes "isAbsolute cwd"
  shows "normalAbsolute (startDir cwd)"
proof -
  have ne: "cwd \<noteq> []"
    using assms by (auto simp: isAbsolute_def)
  have src: "\<not> isAbsolute ''src''"
    by (simp add: isAbsolute_def slash_def)
  have "resolveLoop (rev [cwd, ''src''] @ [cwd]) [] = (cwd @ slash # ''src'' @ [slash], True)"
    using assms ne src by simp
  then have r: "startDir cwd
      = slash # joinSlash (normalizeSegments False [] (splitSlash (cwd @ slash # ''src'' @ [slash])))"
    by (simp add: startDir_def resolve_def normalizeString_def del: resolveLoop.simps)
  have "\<forall>s \<in> set (normalizeSegments False [] (splitSlash (cwd @ slash # ''src'' @ [slash]))). validName s"
    by (intro normalizeSegments_result) (simp_all add: splitSlash_segments)
  then show ?thesis
    unfolding r normalAbsolute_def list_all_iff by blast
qed

lemma startsWith_trans: "startsWith c b \<Longrightarrow> startsWith b a \<Longrightarrow> startsWith c a"
  by (auto simp: startsWith_iff)

lemma startsWith_refl: "startsWith a a"
  by (simp add: startsWith_def)

lemma filesUnder_prefix:
  "normalAbsolute dir \<Longrightarrow> wellNamed n \<Longrightarrow> (p, c) \<in> set (filesUnder dir n) \<Longrightarrow> startsWith p dir"
proof (induction dir n rule: filesUnder.induct)
  case (1 dir content)
  then show ?case by simp
next
  case (2 dir entries)
  from "2.prems"(3) obtain x where x: "x \<in> set entries"
    and p: "(p, c) \<in> set (case x of (fname, m) \<Rightarrow> (case m of
                       Dir _ \<Rightarrow> filesUnder (joinPath [dir, fname]) m
                     | File content \<Rightarrow> [(joinPath [dir, fname], content)]))"
    by auto
  obtain fname m where xm: "x = (fname, m)" by (cases x)
  from "2.prems"(2) x xm have valid: "validName fname" and wn: "wellNamed m"
    by (auto simp: list_all_iff)
  note child = joinPath_child_normal [OF "2.prems"(1) valid]
  show ?case
  proof (cases m)
    case (File content)
    with p xm have "p = joinPath [dir, fname]" by simp
    with child(2) show ?thesis by simp
  next
    case (Dir x2)
    with p xm have "(p, c) \<in> set (filesUnder (joinPath [dir, fname]) m)" by simp
    with x xm Dir child(1) wn have "startsWith p (joinPath [dir, fname])"
      by (intro "2.IH" [of x fname m x2]) simp_all
    then show ?thesis
      using child(2) by (rule startsWith_trans)
  qed
qed



text \<open>
  Claim C10. Let the working directory be an absolute path and let every name in the
  project tree be one that a directory listing can contain. Then the path of every file
  that a run reads begins with the path of \<open>src\<close> under the project root, and the
  effective root of the absolute-path stage for that file is this directory: the branch
  that takes the project root is never used.
\<close>

theorem walker_files_lie_under_src:
  assumes cwd: "isAbsolute cwd"
    and names: "wellNamed (Dir projectEntries)"
    and read: "ReadFile filePath \<in> set (main cwd args provider projectEntries)"
  shows "startsWith filePath (resolve cwd [cwd, ''src''])
         \<and> effectiveRoot cwd filePath = resolve cwd [cwd, ''src'']"
proof -
  have walk: "(existsSync projectEntries ''nuxt.config.ts'' \<or> existsSync projectEntries ''nuxt.config.js'')
              \<and> (\<exists>aliases. getAliasesWithPaths cwd (provider 0) = Inr aliases)
              \<and> (\<exists>entries. map_of projectEntries ''src'' = Some (Dir entries))"
  proof (rule ccontr)
    assume "\<not> ?thesis"
    from main_stops_early(1) [where provider = provider and cwd = cwd
        and projectEntries = projectEntries, OF this] read show False
      by blast
  qed
  then obtain entries
    where present: "existsSync projectEntries ''nuxt.config.ts'' \<or> existsSync projectEntries ''nuxt.config.js''"
    and src: "map_of projectEntries ''src'' = Some (Dir entries)"
    by blast
  obtain known where known: "if ''--replace-absolute'' \<in> set args
      then getKnownDirectories projectEntries = Inr known else known = []"
    using known_if_directory [OF src] by blast
  let ?e = "\<lparr>projectRoot = cwd, replaceAbsoluteFlag = (''--replace-absolute'' \<in> set args),
              knownDirs = known, configOutcome = provider\<rparr>"
  have "ReadFile filePath \<noteq> LoadConfig"
    by simp
  from main_walk_events [OF present known src read this]
  have "ReadFile filePath \<in> set (resumeCalls ?e 0 [(startDir cwd, Dir entries)])"
    using scan_events(3) by blast
  from resume_read_only [OF this] obtain x content
    where "x \<in> set [(startDir cwd, Dir entries)]"
      and "(filePath, content) \<in> set (filesUnder (fst x) (snd x))"
    by blast
  then have mem: "(filePath, content) \<in> set (filesUnder (startDir cwd) (Dir entries))"
    by simp
  have "(''src'', Dir entries) \<in> set projectEntries"
    using src by (rule map_of_SomeD)
  moreover have "\<forall>x \<in> set projectEntries. wellNamed (snd x)"
    using names by (auto simp: list_all_iff)
  ultimately have "wellNamed (snd (''src'', Dir entries))"
    by blast
  then have "wellNamed (Dir entries)"
    by (simp only: snd_conv)
  with startDir_normal [OF cwd] have "startsWith filePath (startDir cwd)"
    using mem by (rule filesUnder_prefix)
  then have "startsWith filePath (resolve cwd [cwd, ''src''])"
    by (simp only: startDir_def)
  then show ?thesis
    by (simp add: effectiveRoot_def isInSrc_def srcDirOf_def)
qed

theorem walker_files_lie_under_src_witness:
  "ReadFile ''/proj/src/components/A.vue''
     \<in> set (main ''/proj'' [''--replace-absolute'']
               (always (Inr \<lparr>configRootDir = None, configSrcDir = Some ''src'', configAlias = None\<rparr>))
               [(''nuxt.config.js'', File ''x''), (''lib'', Dir []),
                (''src'', Dir [(''components'', Dir [(''A.vue'', File ''import X from '~/utils/x';'')])])])
   \<and> effectiveRoot ''/proj'' ''/proj/src/components/A.vue'' = ''/proj/src''"
proof -
  let ?cfg = "\<lparr>configRootDir = None, configSrcDir = Some ''src'', configAlias = None\<rparr>"
  let ?tree = "[(''nuxt.config.js'', File ''x''), (''lib'', Dir []),
                (''src'', Dir [(''components'', Dir [(''A.vue'', File ''import X from '~/utils/x';'')])])]"
  have cwd: "isAbsolute ''/proj''"
    by code_simp
  have names: "wellNamed (Dir ?tree)"
    by code_simp
  have read: "ReadFile ''/proj/src/components/A.vue''
     \<in> set (main ''/proj'' [''--replace-absolute''] (always (Inr ?cfg)) ?tree)"
    by code_simp
  have r: "resolve ''/proj'' [''/proj'', ''src''] = ''/proj/src''"
    by code_simp
  from walker_files_lie_under_src [OF cwd names read] read show ?thesis
    by (simp only: r)
qed


end
